theory Spec2Isabelle
  imports Main
begin

section \<open>ccbase: the dispatch queue (src/ccbase/dispatch_queue.h)\<close>

text \<open>
  A shallow embedding of \<^verbatim>\<open>ccb::DispatchQueue<T, kMaxProducers, kMaxConsumers>\<close>.
  Objects live in an explicit store: a \<^verbatim>\<open>Producer*\<close>, a \<^verbatim>\<open>Consumer*\<close> and a
  \<^verbatim>\<open>Queue*\<close> are addresses (indices) into three heaps, \<^verbatim>\<open>new\<close> appends to a heap, and
  \<^verbatim>\<open>nullptr\<close> is \<open>None\<close>. Every call is one atomic step on the store (the structural
  operations hold \<^verbatim>\<open>mutex_\<close>; a handle is driven by one owner at a time).
  \<^verbatim>\<open>size_t\<close> is 64 bits wide and \<^verbatim>\<open>int\<close> 32 bits (LP64).
\<close>

subsection \<open>Machine integers\<close>

definition size_inc :: "nat \<Rightarrow> nat" where
  \<comment> \<open>\<^verbatim>\<open>x++\<close> on a \<^verbatim>\<open>size_t\<close>\<close>
  "size_inc x = (x + 1) mod 2 ^ 64"

definition int_inc :: "int \<Rightarrow> int" where
  \<comment> \<open>\<^verbatim>\<open>x++\<close> on an \<^verbatim>\<open>int\<close>, wrapping in two's complement\<close>
  "int_inc x = (x + 1 + 2 ^ 31) mod 2 ^ 32 - 2 ^ 31"

definition minus_one_U :: nat where
  \<comment> \<open>\<^verbatim>\<open>-1U\<close>: an \<^verbatim>\<open>unsigned int\<close>, widened to \<^verbatim>\<open>size_t\<close> by the initialiser\<close>
  "minus_one_U = 4294967295"

definition kMaxStickyReadCnt :: nat where
  "kMaxStickyReadCnt = 32"

subsection \<open>Outcomes of a call\<close>

datatype exn = logic_error string | invalid_argument string

datatype ub = null_deref | bad_pointer | out_of_bounds | assert_failed

text \<open>
  A call returns a value and the new store, throws and leaves the store it had reached,
  or runs into undefined behaviour (an access outside an array, a dereference of a null
  or foreign pointer, a failed \<^verbatim>\<open>assert\<close>).
\<close>

datatype ('r, 's) outcome = Returned 'r 's | Threw exn 's | Fault ub

subsection \<open>The channel\<close>

text \<open>
  Modelled from the spec: \<^verbatim>\<open>FastQueue<T, false>\<close> (ccbase/fast_queue.h) is not part of
  the sources. The spec gives its contract: a bounded FIFO built with a fixed capacity,
  a push that fails when it is full and a pop that fails when it is empty, both leaving
  the channel untouched on failure. \<open>None\<close> is the \<^verbatim>\<open>false\<close> return.
\<close>

record 'a Queue =
  q_capacity :: nat
  q_items :: "'a list"

definition Queue_new :: "nat \<Rightarrow> 'a Queue" where
  "Queue_new n = \<lparr>q_capacity = n, q_items = []\<rparr>"

definition Queue_Push :: "'a \<Rightarrow> 'a Queue \<Rightarrow> 'a Queue option" where
  "Queue_Push v q =
     (if length (q_items q) < q_capacity q then Some (q\<lparr>q_items := q_items q @ [v]\<rparr>)
      else None)"

definition Queue_Pop :: "'a Queue \<Rightarrow> ('a \<times> 'a Queue) option" where
  "Queue_Pop q =
     (case q_items q of [] \<Rightarrow> None | v # vs \<Rightarrow> Some (v, q\<lparr>q_items := vs\<rparr>))"

subsection \<open>Objects and the store\<close>

type_synonym addr = nat

record Producer =
  producer_index :: nat
  is_registered :: bool
  p_cur_index :: nat
  p_queue_vec :: "addr option list"

record Consumer =
  consumer_index :: nat
  c_cur_index :: nat
  cur_index_read_cnt :: nat
  c_queue_vec :: "addr option list"

text \<open>
  The members of the dispatch queue, then the three heaps. The arrays \<^verbatim>\<open>producers_\<close>
  and \<^verbatim>\<open>consumers_\<close> have the template parameters as their lengths.
\<close>

record 'a state =
  qlen :: nat
  producers :: "addr option list"
  consumers :: "addr option list"
  producer_count :: nat
  consumer_count :: nat
  reclaimed_producers :: "nat list"
  producer_objs :: "Producer list"
  consumer_objs :: "Consumer list"
  queue_objs :: "'a Queue list"

definition kMaxProducers :: "'a state \<Rightarrow> nat" where
  "kMaxProducers s = length (producers s)"

definition kMaxConsumers :: "'a state \<Rightarrow> nat" where
  "kMaxConsumers s = length (consumers s)"

definition Producer_new :: "nat \<Rightarrow> nat \<Rightarrow> Producer" where
  "Producer_new maxc idx =
     \<lparr>producer_index = idx, is_registered = True, p_cur_index = minus_one_U,
      p_queue_vec = replicate maxc None\<rparr>"

definition Consumer_new :: "nat \<Rightarrow> nat \<Rightarrow> Consumer" where
  "Consumer_new maxp idx =
     \<lparr>consumer_index = idx, c_cur_index = minus_one_U, cur_index_read_cnt = 0,
      c_queue_vec = replicate maxp None\<rparr>"

definition DispatchQueue :: "nat \<Rightarrow> nat \<Rightarrow> nat \<Rightarrow> 'a state" where
  \<comment> \<open>the constructor, for the template parameters \<open>maxp\<close> and \<open>maxc\<close>\<close>
  "DispatchQueue maxp maxc n =
     \<lparr>qlen = n, producers = replicate maxp None, consumers = replicate maxc None,
      producer_count = 0, consumer_count = 0, reclaimed_producers = [],
      producer_objs = [], consumer_objs = [], queue_objs = []\<rparr>"

subsection \<open>Registration\<close>

text \<open>
  The body both registration loops share (lines 324-326 and 345-347): a new channel,
  stored first in the consumer's row at the producer's index, then in the producer's row
  at the consumer's index.
\<close>

definition link_queue :: "addr \<Rightarrow> nat \<Rightarrow> addr \<Rightarrow> nat \<Rightarrow> 'a state \<Rightarrow> (unit, 'a state) outcome" where
  "link_queue consumer pidx producer cidx s =
     (let queue = length (queue_objs s);
          s1 = s\<lparr>queue_objs := queue_objs s @ [Queue_new (qlen s)]\<rparr>
      in if length (consumer_objs s1) \<le> consumer then Fault bad_pointer
         else if length (c_queue_vec (consumer_objs s1 ! consumer)) \<le> pidx
         then Fault out_of_bounds
         else
           let co = consumer_objs s1 ! consumer;
               s2 = s1\<lparr>consumer_objs := (consumer_objs s1)
                      [consumer := co\<lparr>c_queue_vec := (c_queue_vec co)[pidx := Some queue]\<rparr>]\<rparr>
           in if length (producer_objs s2) \<le> producer then Fault bad_pointer
              else if length (p_queue_vec (producer_objs s2 ! producer)) \<le> cidx
              then Fault out_of_bounds
              else
                let pr = producer_objs s2 ! producer
                in Returned () (s2\<lparr>producer_objs := (producer_objs s2)
                     [producer := pr\<lparr>p_queue_vec := (p_queue_vec pr)[cidx := Some queue]\<rparr>]\<rparr>))"

lemma link_queue_counts:
  "link_queue co pidx pr cidx s = Returned u s' \<Longrightarrow>
     producer_count s' = producer_count s \<and> consumer_count s' = consumer_count s"
  by (auto simp: link_queue_def Let_def split: if_splits)

function RegisterProducer_loop :: "nat \<Rightarrow> addr \<Rightarrow> nat \<Rightarrow> 'a state \<Rightarrow> (unit, 'a state) outcome" where
  "RegisterProducer_loop i producer pcount s =
     (if i < consumer_count s then
        (if length (consumers s) \<le> i then Fault out_of_bounds
         else case consumers s ! i of
           None \<Rightarrow> Fault null_deref
         | Some consumer \<Rightarrow>
             (case link_queue consumer pcount producer i s of
                Returned u s' \<Rightarrow> RegisterProducer_loop (i + 1) producer pcount s'
              | Threw e s' \<Rightarrow> Threw e s'
              | Fault f \<Rightarrow> Fault f))
      else Returned () s)"
  by pat_completeness auto
termination
  by (relation "measure (\<lambda>(i, producer, pcount, s). consumer_count s - i)")
     (auto dest: link_queue_counts)

definition RegisterProducer :: "'a state \<Rightarrow> (addr option, 'a state) outcome" where
  "RegisterProducer s =
     (if reclaimed_producers s \<noteq> [] then
        (let index = last (reclaimed_producers s);
             s1 = s\<lparr>reclaimed_producers := butlast (reclaimed_producers s)\<rparr>
         in if length (producers s1) \<le> index then Fault out_of_bounds
            else case producers s1 ! index of
              None \<Rightarrow> Fault assert_failed
            | Some producer \<Rightarrow>
                if length (producer_objs s1) \<le> producer then Fault bad_pointer
                else if is_registered (producer_objs s1 ! producer) then Fault assert_failed
                else Returned (Some producer)
                       (s1\<lparr>producer_objs := (producer_objs s1)
                          [producer := (producer_objs s1 ! producer)\<lparr>is_registered := True\<rparr>]\<rparr>))
      else
        (let pcount = producer_count s
         in if kMaxProducers s \<le> pcount then Returned None s
            else
              let producer = length (producer_objs s);
                  s1 = s\<lparr>producer_objs := producer_objs s @ [Producer_new (kMaxConsumers s) pcount]\<rparr>
              in case RegisterProducer_loop 0 producer pcount s1 of
                   Returned u s2 \<Rightarrow>
                     Returned (Some producer)
                       (s2\<lparr>producers := (producers s2)[pcount := Some producer],
                           producer_count := pcount + 1\<rparr>)
                 | Threw e s2 \<Rightarrow> Threw e s2
                 | Fault f \<Rightarrow> Fault f))"

function RegisterConsumer_loop :: "nat \<Rightarrow> addr \<Rightarrow> nat \<Rightarrow> 'a state \<Rightarrow> (unit, 'a state) outcome" where
  "RegisterConsumer_loop i consumer ccount s =
     (if i < producer_count s then
        (if length (producers s) \<le> i then Fault out_of_bounds
         else case producers s ! i of
           None \<Rightarrow> Fault null_deref
         | Some producer \<Rightarrow>
             (case link_queue consumer i producer ccount s of
                Returned u s' \<Rightarrow> RegisterConsumer_loop (i + 1) consumer ccount s'
              | Threw e s' \<Rightarrow> Threw e s'
              | Fault f \<Rightarrow> Fault f))
      else Returned () s)"
  by pat_completeness auto
termination
  by (relation "measure (\<lambda>(i, consumer, ccount, s). producer_count s - i)")
     (auto dest: link_queue_counts)

definition RegisterConsumer :: "'a state \<Rightarrow> (addr option, 'a state) outcome" where
  "RegisterConsumer s =
     (let ccount = consumer_count s
      in if kMaxConsumers s \<le> ccount then Returned None s
         else
           let consumer = length (consumer_objs s);
               s1 = s\<lparr>consumer_objs := consumer_objs s @ [Consumer_new (kMaxProducers s) ccount]\<rparr>
           in case RegisterConsumer_loop 0 consumer ccount s1 of
                Returned u s2 \<Rightarrow>
                  Returned (Some consumer)
                    (s2\<lparr>consumers := (consumers s2)[ccount := Some consumer],
                        consumer_count := ccount + 1\<rparr>)
              | Threw e s2 \<Rightarrow> Threw e s2
              | Fault f \<Rightarrow> Fault f)"

definition UnregisterProducer :: "addr \<Rightarrow> 'a state \<Rightarrow> (unit, 'a state) outcome" where
  "UnregisterProducer outq s =
     (if length (producer_objs s) \<le> outq then Fault bad_pointer
      else
        let producer = producer_objs s ! outq
        in if kMaxProducers s \<le> producer_index producer \<or>
              Some outq \<noteq> producers s ! producer_index producer
           then Threw (invalid_argument ''invalid OutQueue to unregister'') s
           else if \<not> is_registered producer
           then Threw (logic_error ''double unregister'') s
           else Returned ()
                  (s\<lparr>producer_objs := (producer_objs s)[outq := producer\<lparr>is_registered := False\<rparr>],
                     reclaimed_producers := reclaimed_producers s @ [producer_index producer]\<rparr>))"

subsection \<open>The two scanning loops\<close>

text \<open>
  \<^verbatim>\<open>Push(const T&)\<close>, \<^verbatim>\<open>Push(T&&)\<close> and \<^verbatim>\<open>Pop\<close> run the same two loops over the
  handle's row \<^verbatim>\<open>queue_vec_\<close>, with the channel operation \<open>attempt\<close> as the only
  difference. The loops advance the member \<^verbatim>\<open>cur_index_\<close> itself; here its value is
  the loop variable \<open>i\<close>, and the caller stores it when the loop ends. A loop ends with
  a hit (the index, the channel's address and what the operation returned), with a miss
  (the index it stopped at), or in undefined behaviour.
\<close>

datatype 'r scan = Hit nat addr 'r | Miss nat | Bad ub

text \<open>
  \<^verbatim>\<open>for (cur_index_++; cur_index_ < kMax; cur_index_++)\<close>, entered with \<open>i\<close> the
  incremented index.
\<close>

function scan_tail :: "nat \<Rightarrow> addr option list \<Rightarrow> 'q list \<Rightarrow> ('q \<Rightarrow> 'r option) \<Rightarrow> nat \<Rightarrow> 'r scan" where
  "scan_tail kmax vec heap attempt i =
     (if i < kmax then
        (if length vec \<le> i then Bad out_of_bounds
         else case vec ! i of
           None \<Rightarrow> Miss i
         | Some qptr \<Rightarrow>
             if length heap \<le> qptr then Bad bad_pointer
             else (case attempt (heap ! qptr) of
                     Some r \<Rightarrow> Hit i qptr r
                   | None \<Rightarrow> scan_tail kmax vec heap attempt (i + 1)))
      else Miss i)"
  by pat_completeness auto
termination
  by (relation "measure (\<lambda>(kmax, vec, heap, attempt, i). kmax - i)") auto

text \<open>
  \<^verbatim>\<open>for (cur_index_ = 0; cur_index_ <= last_index; cur_index_++)\<close>, entered with
  \<open>i = 0\<close>. The source compares the index with \<^verbatim>\<open>last_index\<close> only, so the read of
  \<^verbatim>\<open>queue_vec_[cur_index_]\<close> is outside the array once \<open>i\<close> reaches its length.
\<close>

function scan_head :: "addr option list \<Rightarrow> 'q list \<Rightarrow> ('q \<Rightarrow> 'r option) \<Rightarrow> nat \<Rightarrow> nat \<Rightarrow> 'r scan" where
  "scan_head vec heap attempt last_index i =
     (if i \<le> last_index then
        (if length vec \<le> i then Bad out_of_bounds
         else case vec ! i of
           None \<Rightarrow> Miss i
         | Some qptr \<Rightarrow>
             if length heap \<le> qptr then Bad bad_pointer
             else (case attempt (heap ! qptr) of
                     Some r \<Rightarrow> Hit i qptr r
                   | None \<Rightarrow> scan_head vec heap attempt last_index (i + 1)))
      else Miss i)"
  by pat_completeness auto
termination
  by (relation "measure (\<lambda>(vec, heap, attempt, last_index, i). Suc last_index - i)") auto

subsection \<open>The producer's handle\<close>

definition set_p_cur_index :: "addr \<Rightarrow> nat \<Rightarrow> 'a state \<Rightarrow> 'a state" where
  "set_p_cur_index this i s =
     s\<lparr>producer_objs := (producer_objs s)[this := (producer_objs s ! this)\<lparr>p_cur_index := i\<rparr>]\<rparr>"

definition Push :: "addr \<Rightarrow> 'a \<Rightarrow> 'a state \<Rightarrow> (bool, 'a state) outcome" where
  "Push this val s =
     (if length (producer_objs s) \<le> this then Fault bad_pointer
      else
        let pr = producer_objs s ! this
        in if \<not> is_registered pr then Threw (logic_error ''push unregistered OutQueue'') s
           else
             let last_index = p_cur_index pr
             in case scan_tail (kMaxConsumers s) (p_queue_vec pr) (queue_objs s)
                       (Queue_Push val) (size_inc (p_cur_index pr)) of
                  Hit i qptr q' \<Rightarrow>
                    Returned True (set_p_cur_index this i (s\<lparr>queue_objs := (queue_objs s)[qptr := q']\<rparr>))
                | Bad f \<Rightarrow> Fault f
                | Miss j \<Rightarrow>
                    (case scan_head (p_queue_vec pr) (queue_objs s) (Queue_Push val) last_index 0 of
                       Hit i qptr q' \<Rightarrow>
                         Returned True
                           (set_p_cur_index this i (s\<lparr>queue_objs := (queue_objs s)[qptr := q']\<rparr>))
                     | Bad f \<Rightarrow> Fault f
                     | Miss i \<Rightarrow> Returned False (set_p_cur_index this i s)))"

definition Push_move :: "addr \<Rightarrow> 'a \<Rightarrow> 'a state \<Rightarrow> (bool, 'a state) outcome" where
  \<comment> \<open>\<^verbatim>\<open>Push(T&&)\<close>, lines 142-165: the text of \<^verbatim>\<open>Push(const T&)\<close> with
      \<^verbatim>\<open>std::move(val)\<close>; values are copied here\<close>
  "Push_move this val s = Push this val s"

definition Push_idx :: "addr \<Rightarrow> nat \<Rightarrow> 'a \<Rightarrow> 'a state \<Rightarrow> (bool, 'a state) outcome" where
  "Push_idx this idx val s =
     (if length (producer_objs s) \<le> this then Fault bad_pointer
      else
        let pr = producer_objs s ! this
        in if \<not> is_registered pr then Threw (logic_error ''push unregistered OutQueue'') s
           else if idx < kMaxConsumers s then
             (if length (p_queue_vec pr) \<le> idx then Fault out_of_bounds
              else case p_queue_vec pr ! idx of
                None \<Rightarrow> Returned False s
              | Some qptr \<Rightarrow>
                  if length (queue_objs s) \<le> qptr then Fault bad_pointer
                  else (case Queue_Push val (queue_objs s ! qptr) of
                          Some q' \<Rightarrow> Returned True (s\<lparr>queue_objs := (queue_objs s)[qptr := q']\<rparr>)
                        | None \<Rightarrow> Returned False s))
           else Returned False s)"

definition Push_idx_move :: "addr \<Rightarrow> nat \<Rightarrow> 'a \<Rightarrow> 'a state \<Rightarrow> (bool, 'a state) outcome" where
  \<comment> \<open>\<^verbatim>\<open>Push(size_t, T&&)\<close>, lines 182-195\<close>
  "Push_idx_move this idx val s = Push_idx this idx val s"

definition Unregister :: "addr \<Rightarrow> 'a state \<Rightarrow> (unit, 'a state) outcome" where
  "Unregister this s = UnregisterProducer this s"

subsection \<open>The consumer's handle\<close>

text \<open>
  \<^verbatim>\<open>Pop\<close> returns \<open>Some v\<close> for \<^verbatim>\<open>true\<close> with \<open>v\<close> stored through \<^verbatim>\<open>ptr\<close>, and \<open>None\<close>
  for \<^verbatim>\<open>false\<close>. \<open>Pop_scan\<close> is the part from \<^verbatim>\<open>cur_index_read_cnt_ = 0\<close> on (lines
  239-260).
\<close>

definition set_consumer :: "addr \<Rightarrow> nat \<Rightarrow> nat \<Rightarrow> 'a state \<Rightarrow> 'a state" where
  "set_consumer this i cnt s =
     s\<lparr>consumer_objs := (consumer_objs s)
          [this := (consumer_objs s ! this)\<lparr>c_cur_index := i, cur_index_read_cnt := cnt\<rparr>]\<rparr>"

definition Pop_scan :: "addr \<Rightarrow> 'a state \<Rightarrow> ('a option, 'a state) outcome" where
  "Pop_scan this s =
     (let co = consumer_objs s ! this;
          last_index = c_cur_index co
      in case scan_tail (kMaxProducers s) (c_queue_vec co) (queue_objs s)
                Queue_Pop (size_inc (c_cur_index co)) of
           Hit i qptr (v, q') \<Rightarrow>
             Returned (Some v) (set_consumer this i 1 (s\<lparr>queue_objs := (queue_objs s)[qptr := q']\<rparr>))
         | Bad f \<Rightarrow> Fault f
         | Miss j \<Rightarrow>
             (case scan_head (c_queue_vec co) (queue_objs s) Queue_Pop last_index 0 of
                Hit i qptr (v, q') \<Rightarrow>
                  Returned (Some v)
                    (set_consumer this i 1 (s\<lparr>queue_objs := (queue_objs s)[qptr := q']\<rparr>))
              | Bad f \<Rightarrow> Fault f
              | Miss i \<Rightarrow> Returned None (set_consumer this i 0 s)))"

definition Pop :: "addr \<Rightarrow> 'a state \<Rightarrow> ('a option, 'a state) outcome" where
  "Pop this s =
     (if length (consumer_objs s) \<le> this then Fault bad_pointer
      else
        let co = consumer_objs s ! this
        in if cur_index_read_cnt co \<noteq> 0 \<and> cur_index_read_cnt co < kMaxStickyReadCnt then
             (if length (c_queue_vec co) \<le> c_cur_index co then Fault out_of_bounds
              else case c_queue_vec co ! c_cur_index co of
                None \<Rightarrow> Fault null_deref
              | Some qptr \<Rightarrow>
                  if length (queue_objs s) \<le> qptr then Fault bad_pointer
                  else (case Queue_Pop (queue_objs s ! qptr) of
                          Some (v, q') \<Rightarrow>
                            Returned (Some v)
                              (set_consumer this (c_cur_index co) (size_inc (cur_index_read_cnt co))
                                 (s\<lparr>queue_objs := (queue_objs s)[qptr := q']\<rparr>))
                        | None \<Rightarrow> Pop_scan this s))
           else Pop_scan this s)"

text \<open>
  \<^verbatim>\<open>PopWait\<close> polls. \<open>env 0\<close> is what the other threads do to the store during the next
  \<^verbatim>\<open>usleep(1000)\<close>, \<open>env 1\<close> during the one after it, and so on. The loop may run
  forever, so it runs on fuel, one unit per call of \<^verbatim>\<open>Pop\<close>: \<open>None\<close> is "still polling
  when the fuel ran out".
\<close>

fun PopWait_loop ::
  "nat \<Rightarrow> (nat \<Rightarrow> 'a state \<Rightarrow> 'a state) \<Rightarrow> addr \<Rightarrow> int \<Rightarrow> int \<Rightarrow> 'a state
     \<Rightarrow> ('a option, 'a state) outcome option" where
  "PopWait_loop 0 env this timeout sleep_ms s = None"
| "PopWait_loop (Suc fuel) env this timeout sleep_ms s =
     (case Pop this s of
        Returned (Some v) s' \<Rightarrow> Some (Returned (Some v) s')
      | Returned None s' \<Rightarrow>
          if timeout \<ge> 0 \<and> sleep_ms \<ge> timeout then Some (Returned None s')
          else PopWait_loop fuel (\<lambda>n. env (Suc n)) this timeout (int_inc sleep_ms) (env 0 s')
      | Threw e s' \<Rightarrow> Some (Threw e s')
      | Fault f \<Rightarrow> Some (Fault f))"

definition PopWait ::
  "nat \<Rightarrow> (nat \<Rightarrow> 'a state \<Rightarrow> 'a state) \<Rightarrow> addr \<Rightarrow> int \<Rightarrow> 'a state
     \<Rightarrow> ('a option, 'a state) outcome option" where
  "PopWait fuel env this timeout s = PopWait_loop fuel env this timeout 0 s"

section \<open>The wiring invariant\<close>

declare RegisterProducer_loop.simps [simp del] RegisterConsumer_loop.simps [simp del]
  scan_tail.simps [simp del] scan_head.simps [simp del]

text \<open>
  The row of the producer object at address \<open>p\<close>, and of the consumer object at
  address \<open>c\<close>. The \<open>n\<close>-th producer object made by one dispatch queue gets the
  address \<open>n\<close> and the slot \<open>n\<close>, and so for the consumers, so below a pair
  \<open>(p, c)\<close> names slots and addresses alike.
\<close>

definition p_row :: "'a state \<Rightarrow> addr \<Rightarrow> addr option list" where
  "p_row s p = p_queue_vec (producer_objs s ! p)"

definition c_row :: "'a state \<Rightarrow> addr \<Rightarrow> addr option list" where
  "c_row s c = c_queue_vec (consumer_objs s ! c)"

text \<open>
  \<open>grid s D\<close>: exactly the pairs in \<open>D\<close> are wired. Every row has its full length;
  a row entry is filled if and only if its pair is in \<open>D\<close>; for a pair in \<open>D\<close> the
  two rows hold the same address of an allocated channel; no channel serves two pairs.
\<close>

definition rows_sized :: "'a state \<Rightarrow> bool" where
  "rows_sized s \<longleftrightarrow>
     length (producer_objs s) \<le> kMaxProducers s \<and>
     length (consumer_objs s) \<le> kMaxConsumers s \<and>
     (\<forall>p<length (producer_objs s). length (p_row s p) = kMaxConsumers s) \<and>
     (\<forall>c<length (consumer_objs s). length (c_row s c) = kMaxProducers s)"

definition wired_p :: "'a state \<Rightarrow> (nat \<times> nat) set \<Rightarrow> bool" where
  "wired_p s D \<longleftrightarrow>
     (\<forall>p<length (producer_objs s). \<forall>c<kMaxConsumers s.
        (p_row s p ! c \<noteq> None) = ((p, c) \<in> D))"

definition wired_c :: "'a state \<Rightarrow> (nat \<times> nat) set \<Rightarrow> bool" where
  "wired_c s D \<longleftrightarrow>
     (\<forall>c<length (consumer_objs s). \<forall>p<kMaxProducers s.
        (c_row s c ! p \<noteq> None) = ((p, c) \<in> D))"

definition paired :: "'a state \<Rightarrow> (nat \<times> nat) set \<Rightarrow> bool" where
  "paired s D \<longleftrightarrow>
     (\<forall>p c. (p, c) \<in> D \<longrightarrow>
        p < length (producer_objs s) \<and> c < length (consumer_objs s) \<and>
        p_row s p ! c = c_row s c ! p \<and>
        (\<forall>q. p_row s p ! c = Some q \<longrightarrow> q < length (queue_objs s)))"

definition unshared :: "'a state \<Rightarrow> (nat \<times> nat) set \<Rightarrow> bool" where
  "unshared s D \<longleftrightarrow>
     (\<forall>p c p' c' q. (p, c) \<in> D \<longrightarrow> (p', c') \<in> D \<longrightarrow>
        p_row s p ! c = Some q \<longrightarrow> p_row s p' ! c' = Some q \<longrightarrow> p = p' \<and> c = c')"

definition grid :: "'a state \<Rightarrow> (nat \<times> nat) set \<Rightarrow> bool" where
  "grid s D \<longleftrightarrow> rows_sized s \<and> wired_p s D \<and> wired_c s D \<and> paired s D \<and> unshared s D"

text \<open>What a registration loop leaves alone: everything but the rows and the new channels.\<close>

definition same_but_rows :: "'a state \<Rightarrow> 'a state \<Rightarrow> bool" where
  "same_but_rows s s' \<longleftrightarrow>
     qlen s' = qlen s \<and> producers s' = producers s \<and> consumers s' = consumers s \<and>
     producer_count s' = producer_count s \<and> consumer_count s' = consumer_count s \<and>
     reclaimed_producers s' = reclaimed_producers s \<and>
     map (\<lambda>pr. pr\<lparr>p_queue_vec := []\<rparr>) (producer_objs s') =
       map (\<lambda>pr. pr\<lparr>p_queue_vec := []\<rparr>) (producer_objs s) \<and>
     map (\<lambda>co. co\<lparr>c_queue_vec := []\<rparr>) (consumer_objs s') =
       map (\<lambda>co. co\<lparr>c_queue_vec := []\<rparr>) (consumer_objs s) \<and>
     take (length (queue_objs s)) (queue_objs s') = queue_objs s"

text \<open>The store after \<open>link_queue\<close> has wired the pair \<open>(p, c)\<close>.\<close>

definition linked :: "addr \<Rightarrow> addr \<Rightarrow> 'a state \<Rightarrow> 'a state" where
  "linked c p s =
     s\<lparr>queue_objs := queue_objs s @ [Queue_new (qlen s)],
        consumer_objs := (consumer_objs s)[c := (consumer_objs s ! c)
           \<lparr>c_queue_vec := (c_row s c)[p := Some (length (queue_objs s))]\<rparr>],
        producer_objs := (producer_objs s)[p := (producer_objs s ! p)
           \<lparr>p_queue_vec := (p_row s p)[c := Some (length (queue_objs s))]\<rparr>]\<rparr>"

text \<open>
  The invariant of a running dispatch queue: the slot tables are filled up to the counts,
  the free-list holds exactly the slots whose handle is inactive, each once, and all pairs
  of slots below the counts are wired.
\<close>

definition tables_ok :: "'a state \<Rightarrow> bool" where
  "tables_ok s \<longleftrightarrow>
     length (producer_objs s) = producer_count s \<and>
     length (consumer_objs s) = consumer_count s \<and>
     (\<forall>p<kMaxProducers s. producers s ! p = (if p < producer_count s then Some p else None)) \<and>
     (\<forall>c<kMaxConsumers s. consumers s ! c = (if c < consumer_count s then Some c else None)) \<and>
     (\<forall>p<producer_count s. producer_index (producer_objs s ! p) = p)"

definition reclaim_ok :: "'a state \<Rightarrow> bool" where
  "reclaim_ok s \<longleftrightarrow>
     distinct (reclaimed_producers s) \<and>
     (\<forall>p. p \<in> set (reclaimed_producers s) \<longleftrightarrow>
            p < producer_count s \<and> \<not> is_registered (producer_objs s ! p))"

definition matrix_inv :: "'a state \<Rightarrow> bool" where
  "matrix_inv s \<longleftrightarrow>
     tables_ok s \<and> reclaim_ok s \<and>
     grid s ({..<producer_count s} \<times> {..<consumer_count s})"

text \<open>Two stores with the same wiring: what the hot path and the flag updates preserve.\<close>

definition same_rows :: "'a state \<Rightarrow> 'a state \<Rightarrow> bool" where
  "same_rows s s' \<longleftrightarrow>
     kMaxProducers s' = kMaxProducers s \<and> kMaxConsumers s' = kMaxConsumers s \<and>
     length (producer_objs s') = length (producer_objs s) \<and>
     length (consumer_objs s') = length (consumer_objs s) \<and>
     length (queue_objs s) \<le> length (queue_objs s') \<and>
     (\<forall>p<length (producer_objs s). p_row s' p = p_row s p) \<and>
     (\<forall>c<length (consumer_objs s). c_row s' c = c_row s c)"

text \<open>Toggling a registration flag, together with any change of the free-list.\<close>

definition set_registered :: "addr \<Rightarrow> bool \<Rightarrow> nat list \<Rightarrow> 'a state \<Rightarrow> 'a state" where
  "set_registered a b rs s =
     s\<lparr>producer_objs := (producer_objs s)[a := (producer_objs s ! a)\<lparr>is_registered := b\<rparr>],
        reclaimed_producers := rs\<rparr>"

text \<open>What push and pop may change: cursors, the sticky counter and channel contents.\<close>

definition hot_step :: "'a state \<Rightarrow> 'a state \<Rightarrow> bool" where
  "hot_step s s' \<longleftrightarrow>
     qlen s' = qlen s \<and> producers s' = producers s \<and> consumers s' = consumers s \<and>
     producer_count s' = producer_count s \<and> consumer_count s' = consumer_count s \<and>
     reclaimed_producers s' = reclaimed_producers s \<and>
     length (queue_objs s') = length (queue_objs s) \<and>
     map (\<lambda>pr. pr\<lparr>p_cur_index := 0\<rparr>) (producer_objs s') =
       map (\<lambda>pr. pr\<lparr>p_cur_index := 0\<rparr>) (producer_objs s) \<and>
     map (\<lambda>co. co\<lparr>c_cur_index := 0, cur_index_read_cnt := 0\<rparr>) (consumer_objs s') =
       map (\<lambda>co. co\<lparr>c_cur_index := 0, cur_index_read_cnt := 0\<rparr>) (consumer_objs s)"

text \<open>The stores a running dispatch queue can be in.\<close>

inductive reachable :: "'a state \<Rightarrow> bool" where
  init: "reachable (DispatchQueue maxp maxc n)"
| register_consumer: "reachable s \<Longrightarrow> RegisterConsumer s = Returned r s' \<Longrightarrow> reachable s'"
| register_producer: "reachable s \<Longrightarrow> RegisterProducer s = Returned r s' \<Longrightarrow> reachable s'"
| unregister_producer: "reachable s \<Longrightarrow> UnregisterProducer outq s = Returned u s' \<Longrightarrow> reachable s'"
| push: "reachable s \<Longrightarrow> Push this v s = Returned b s' \<Longrightarrow> reachable s'"
| push_idx: "reachable s \<Longrightarrow> Push_idx this idx v s = Returned b s' \<Longrightarrow> reachable s'"
| pop: "reachable s \<Longrightarrow> Pop this s = Returned w s' \<Longrightarrow> reachable s'"

section \<open>Notions of the specification\<close>

text \<open>
  The row of the handle in producer slot \<open>p\<close> and in consumer slot \<open>c\<close>, read through
  the slot tables as the hot path does.
\<close>

definition producer_row :: "'a state \<Rightarrow> nat \<Rightarrow> addr option list" where
  "producer_row s p =
     (case producers s ! p of Some a \<Rightarrow> p_queue_vec (producer_objs s ! a) | None \<Rightarrow> [])"

definition consumer_row :: "'a state \<Rightarrow> nat \<Rightarrow> addr option list" where
  "consumer_row s c =
     (case consumers s ! c of Some a \<Rightarrow> c_queue_vec (consumer_objs s ! a) | None \<Rightarrow> [])"

text \<open>
  A channel links producer slot \<open>p\<close> and consumer slot \<open>c\<close> when both rows refer to it,
  at whatever index.
\<close>

definition links :: "'a state \<Rightarrow> addr \<Rightarrow> nat \<Rightarrow> nat \<Rightarrow> bool" where
  "links s q p c \<longleftrightarrow>
     q < length (queue_objs s) \<and> Some q \<in> set (producer_row s p) \<and>
     Some q \<in> set (consumer_row s c)"

text \<open>The number of filled entries of a row.\<close>

definition wired_count :: "addr option list \<Rightarrow> nat" where
  "wired_count row = length (filter (\<lambda>e. e \<noteq> None) row)"

text \<open>
  Concrete stores are built by running calls: \<open>after call s\<close> is the store a call that
  returns leaves (and \<open>s\<close> itself when it does not return).
\<close>

definition after :: "('s \<Rightarrow> ('r, 's) outcome) \<Rightarrow> 's \<Rightarrow> 's" where
  "after call s = (case call s of Returned r s' \<Rightarrow> s' | Threw e s' \<Rightarrow> s | Fault f \<Rightarrow> s)"

text \<open>
  Two producers and two consumers on a queue with both maxima 2 and channels of capacity 1.
\<close>

definition demo22 :: "nat state" where
  "demo22 = after RegisterProducer (after RegisterConsumer (after RegisterConsumer
              (after RegisterProducer (DispatchQueue 2 2 1))))"

text \<open>
  Sequences of calls: every handle of a list unregistered in order, and \<open>n\<close> successive
  registrations with the handles they return. The first call that does not return ends
  the sequence.
\<close>

fun unregister_all :: "addr list \<Rightarrow> 'a state \<Rightarrow> (unit, 'a state) outcome" where
  "unregister_all [] s = Returned () s"
| "unregister_all (h # hs) s =
     (case UnregisterProducer h s of
        Returned u s' \<Rightarrow> unregister_all hs s'
      | Threw e s' \<Rightarrow> Threw e s'
      | Fault f \<Rightarrow> Fault f)"

fun register_n :: "nat \<Rightarrow> 'a state \<Rightarrow> (addr option list, 'a state) outcome" where
  "register_n 0 s = Returned [] s"
| "register_n (Suc n) s =
     (case RegisterProducer s of
        Returned h s' \<Rightarrow>
          (case register_n n s' of
             Returned hs s'' \<Rightarrow> Returned (h # hs) s''
           | Threw e t \<Rightarrow> Threw e t
           | Fault f \<Rightarrow> Fault f)
      | Threw e s' \<Rightarrow> Threw e s'
      | Fault f \<Rightarrow> Fault f)"

text \<open>The store \<open>demo22\<close> after its producers 0 and 1 unregistered, in this order.\<close>

definition demo22_unregistered :: "nat state" where
  "demo22_unregistered = after (UnregisterProducer 1) (after (UnregisterProducer 0) demo22)"

text \<open>
  The store \<open>demo22\<close> with one more producer object in the heap, at address 2: a handle
  of another dispatch queue, made for slot 0 there.
\<close>

definition demo22_foreign :: "nat state" where
  "demo22_foreign = demo22\<lparr>producer_objs := producer_objs demo22 @ [Producer_new 2 0]\<rparr>"

text \<open>
  The store in which the \<open>k\<close>-th call of \<open>Pop\<close> by \<open>PopWait\<close> starts, counted from 0, when
  the \<open>k\<close> calls before it all returned false; \<open>None\<close> when one of them did not.
\<close>

fun attempt_store ::
  "(nat \<Rightarrow> 'a state \<Rightarrow> 'a state) \<Rightarrow> addr \<Rightarrow> nat \<Rightarrow> 'a state \<Rightarrow> 'a state option" where
  "attempt_store env this 0 s = Some s"
| "attempt_store env this (Suc k) s =
     (case Pop this s of
        Returned None s' \<Rightarrow> attempt_store (\<lambda>n. env (Suc n)) this k (env 0 s')
      | _ \<Rightarrow> None)"

text \<open>One producer and one consumer on a queue with both maxima 2 and channels of capacity 1.\<close>

definition demo11 :: "nat state" where
  "demo11 = after RegisterConsumer (after RegisterProducer (DispatchQueue 2 2 1))"

text \<open>
  \<open>demo11\<close> after a pop that found nothing, then after producer 0 pushed 7, then after
  the consumer popped it.
\<close>

definition demo11_idle :: "nat state" where
  "demo11_idle = after (Pop 0) demo11"

definition demo11_fed :: "nat state" where
  "demo11_fed = after (Push 0 7) demo11_idle"

definition demo11_served :: "nat state" where
  "demo11_served = after (Pop 0) demo11_fed"

text \<open>
  A call of \<open>Pop\<close> is a sticky hit when the fast path is entered and its pop succeeds;
  \<open>sticky_run n\<close> says that the next \<open>n\<close> calls of \<open>Pop\<close> on the handle are sticky hits.
\<close>

definition sticky_hit :: "addr \<Rightarrow> 'a state \<Rightarrow> bool" where
  "sticky_hit this s \<longleftrightarrow>
     (let co = consumer_objs s ! this
      in cur_index_read_cnt co \<noteq> 0 \<and> cur_index_read_cnt co < kMaxStickyReadCnt \<and>
         c_cur_index co < length (c_queue_vec co) \<and>
         (case c_queue_vec co ! c_cur_index co of
            None \<Rightarrow> False
          | Some q \<Rightarrow> q < length (queue_objs s) \<and> Queue_Pop (queue_objs s ! q) \<noteq> None))"

fun sticky_run :: "nat \<Rightarrow> addr \<Rightarrow> 'a state \<Rightarrow> bool" where
  "sticky_run 0 this s = True"
| "sticky_run (Suc n) this s =
     (sticky_hit this s \<and>
      (case Pop this s of Returned w s' \<Rightarrow> sticky_run n this s' | _ \<Rightarrow> False))"

text \<open>
  The order of the fan-out scan in the words of the specification: from just after the
  cursor to the end of the row, then from 0 to the cursor, each half cut at its first
  entry that is not filled.
\<close>

definition wired_at :: "addr option list \<Rightarrow> nat \<Rightarrow> bool" where
  "wired_at row i \<longleftrightarrow> i < length row \<and> row ! i \<noteq> None"

definition scan_order :: "addr option list \<Rightarrow> nat \<Rightarrow> nat list" where
  "scan_order row cursor =
     takeWhile (wired_at row) [cursor + 1 ..< length row] @
     takeWhile (wired_at row) [0 ..< cursor + 1]"

text \<open>The channel at row index \<open>i\<close> takes the result \<open>Some\<close> under the channel operation.\<close>

definition answers :: "('q \<Rightarrow> 'r option) \<Rightarrow> 'q list \<Rightarrow> addr option list \<Rightarrow> nat \<Rightarrow> bool" where
  "answers attempt heap row i \<longleftrightarrow>
     (case row ! i of Some q \<Rightarrow> attempt (heap ! q) \<noteq> None | None \<Rightarrow> False)"

text \<open>\<open>demo22\<close> after producer 0 pushed 7: its cursor is 0 and its first channel is full.\<close>

definition demo22_pushed :: "nat state" where
  "demo22_pushed = after (Push 0 7) demo22"

text \<open>An outcome with a change applied to the store it carries.\<close>

fun map_store :: "('s \<Rightarrow> 's) \<Rightarrow> ('r, 's) outcome \<Rightarrow> ('r, 's) outcome" where
  "map_store f (Returned r s) = Returned r (f s)"
| "map_store f (Threw e s) = Threw e (f s)"
| "map_store f (Fault u) = Fault u"

text \<open>The store with the channel at address \<open>q\<close> replaced.\<close>

definition with_channel :: "addr \<Rightarrow> 'a Queue \<Rightarrow> 'a state \<Rightarrow> 'a state" where
  "with_channel q x s = s\<lparr>queue_objs := (queue_objs s)[q := x]\<rparr>"

text \<open>Two producers and two consumers on a queue with both maxima 3 and channels of capacity 1.\<close>

definition demo33 :: "nat state" where
  "demo33 = after RegisterProducer (after RegisterConsumer (after RegisterConsumer
              (after RegisterProducer (DispatchQueue 3 3 1))))"

text \<open>
  \<open>demo22\<close> after producer 0 pushed 7 and 8, which filled both its channels, and 9,
  which found no room.
\<close>

definition demo22_full :: "nat state" where
  "demo22_full = after (Push 0 9) (after (Push 0 8) (after (Push 0 7) demo22))"

text \<open>The store after \<open>n\<close> calls of \<open>Pop\<close> on a handle.\<close>

fun pops :: "nat \<Rightarrow> addr \<Rightarrow> 'a state \<Rightarrow> 'a state" where
  "pops 0 this s = s"
| "pops (Suc n) this s = pops n this (after (Pop this) s)"

text \<open>
  Two producers feeding one consumer, on a queue with maxima 3 and 2 and channels of
  capacity 3. Producer 0 pushed 7 and producer 1 pushed 8, 9 and 10; the consumer popped
  7 from row index 0 and then 8 from row index 1; then producer 0 pushed 11.
\<close>

definition demo_feeds :: "nat state" where
  "demo_feeds =
     after (Push 0 11) (after (Pop 0) (after (Pop 0)
       (after (Push 1 10) (after (Push 1 9) (after (Push 1 8) (after (Push 0 7)
         (after RegisterConsumer (after RegisterProducer (after RegisterProducer
            (DispatchQueue 3 2 3))))))))))"

text \<open>
  The sticky counter of a consumer is at most 32, and while it is not 0 the cursor is
  the index of a producer slot in use.
\<close>

definition sticky_ok :: "'a state \<Rightarrow> bool" where
  "sticky_ok s \<longleftrightarrow>
     (\<forall>c<length (consumer_objs s).
        cur_index_read_cnt (consumer_objs s ! c) \<noteq> 0 \<longrightarrow>
          c_cur_index (consumer_objs s ! c) < producer_count s \<and>
          cur_index_read_cnt (consumer_objs s ! c) \<le> 32)"

section \<open>The invariant is preserved\<close>

lemma same_but_rows_refl: "same_but_rows s s"
  by (simp add: same_but_rows_def)

lemma same_but_rows_trans:
  "same_but_rows s t \<Longrightarrow> same_but_rows t u \<Longrightarrow> same_but_rows s u"
  unfolding same_but_rows_def
  by (metis (no_types, lifting) length_take min.cobounded2 take_all_iff take_take min_def nat_le_linear)

lemma linked_fields [simp]:
  "qlen (linked c p s) = qlen s"
  "producers (linked c p s) = producers s"
  "consumers (linked c p s) = consumers s"
  "producer_count (linked c p s) = producer_count s"
  "consumer_count (linked c p s) = consumer_count s"
  "reclaimed_producers (linked c p s) = reclaimed_producers s"
  "kMaxProducers (linked c p s) = kMaxProducers s"
  "kMaxConsumers (linked c p s) = kMaxConsumers s"
  "length (producer_objs (linked c p s)) = length (producer_objs s)"
  "length (consumer_objs (linked c p s)) = length (consumer_objs s)"
  "queue_objs (linked c p s) = queue_objs s @ [Queue_new (qlen s)]"
  by (simp_all add: linked_def kMaxProducers_def kMaxConsumers_def)

lemma p_row_linked:
  "p' < length (producer_objs s) \<Longrightarrow>
   p_row (linked c p s) p' =
     (if p' = p then (p_row s p)[c := Some (length (queue_objs s))] else p_row s p')"
  by (simp add: linked_def p_row_def)

lemma c_row_linked:
  "c' < length (consumer_objs s) \<Longrightarrow>
   c_row (linked c p s) c' =
     (if c' = c then (c_row s c)[p := Some (length (queue_objs s))] else c_row s c')"
  by (simp add: linked_def c_row_def)

lemma map_update_same:
  "i < length xs \<Longrightarrow> f x = f (xs ! i) \<Longrightarrow> map f (xs[i := x]) = map f xs"
  by (simp add: map_update list_update_same_conv)

lemma same_but_rows_linked:
  "p < length (producer_objs s) \<Longrightarrow> c < length (consumer_objs s) \<Longrightarrow>
   same_but_rows s (linked c p s)"
  by (simp add: same_but_rows_def linked_def map_update_same)

lemma rows_sizedD:
  assumes "rows_sized s"
  shows "length (producer_objs s) \<le> kMaxProducers s"
    and "length (consumer_objs s) \<le> kMaxConsumers s"
    and "p < length (producer_objs s) \<Longrightarrow> length (p_row s p) = kMaxConsumers s"
    and "c < length (consumer_objs s) \<Longrightarrow> length (c_row s c) = kMaxProducers s"
  using assms by (simp_all add: rows_sized_def)

lemma wired_pD:
  "wired_p s D \<Longrightarrow> p < length (producer_objs s) \<Longrightarrow> c < kMaxConsumers s \<Longrightarrow>
   (p_row s p ! c \<noteq> None) = ((p, c) \<in> D)"
  by (simp add: wired_p_def)

lemma wired_cD:
  "wired_c s D \<Longrightarrow> c < length (consumer_objs s) \<Longrightarrow> p < kMaxProducers s \<Longrightarrow>
   (c_row s c ! p \<noteq> None) = ((p, c) \<in> D)"
  by (simp add: wired_c_def)

lemma pairedD:
  assumes "paired s D" "(p, c) \<in> D"
  shows "p < length (producer_objs s)" and "c < length (consumer_objs s)"
    and "p_row s p ! c = c_row s c ! p"
    and "p_row s p ! c = Some q \<Longrightarrow> q < length (queue_objs s)"
  using assms by (simp_all add: paired_def)

lemma unsharedD:
  "unshared s D \<Longrightarrow> (p, c) \<in> D \<Longrightarrow> (p', c') \<in> D \<Longrightarrow>
   p_row s p ! c = Some q \<Longrightarrow> p_row s p' ! c' = Some q \<Longrightarrow> p = p' \<and> c = c'"
  unfolding unshared_def by (elim allE impE) assumption+

lemma grid_linked:
  assumes g: "grid s D" and p: "p < length (producer_objs s)"
    and c: "c < length (consumer_objs s)" and new: "(p, c) \<notin> D"
  shows "grid (linked c p s) (insert (p, c) D)"
proof -
  let ?s = "linked c p s" and ?q = "length (queue_objs s)"
  from g have rs: "rows_sized s" and wp: "wired_p s D" and wc: "wired_c s D"
    and pa: "paired s D" and un: "unshared s D"
    by (simp_all add: grid_def)
  note rp = rows_sizedD(3)[OF rs] and rc = rows_sizedD(4)[OF rs]
  have pk: "p < kMaxProducers s" and ck: "c < kMaxConsumers s"
    using p c rows_sizedD(1,2)[OF rs] by auto
  have 1: "rows_sized ?s"
    using rs by (simp add: rows_sized_def p_row_linked c_row_linked)
  have 3: "wired_p ?s (insert (p, c) D)"
    unfolding wired_p_def
  proof (intro allI impI)
    fix p' c' assume a: "p' < length (producer_objs ?s)" "c' < kMaxConsumers ?s"
    show "(p_row ?s p' ! c' \<noteq> None) = ((p', c') \<in> insert (p, c) D)"
    proof (cases "p' = p \<and> c' = c")
      case True
      then show ?thesis using a rp[OF p] by (simp add: p_row_linked)
    next
      case False
      then have "p_row ?s p' ! c' = p_row s p' ! c'"
        using a by (auto simp: p_row_linked)
      then show ?thesis using False wired_pD[OF wp, of p' c'] a by auto
    qed
  qed
  have 4: "wired_c ?s (insert (p, c) D)"
    unfolding wired_c_def
  proof (intro allI impI)
    fix c' p' assume a: "c' < length (consumer_objs ?s)" "p' < kMaxProducers ?s"
    show "(c_row ?s c' ! p' \<noteq> None) = ((p', c') \<in> insert (p, c) D)"
    proof (cases "p' = p \<and> c' = c")
      case True
      then show ?thesis using a rc[OF c] by (simp add: c_row_linked)
    next
      case False
      then have "c_row ?s c' ! p' = c_row s c' ! p'"
        using a by (auto simp: c_row_linked)
      then show ?thesis using False wired_cD[OF wc, of c' p'] a by auto
    qed
  qed
  have old: "p_row ?s p' ! c' = p_row s p' ! c' \<and> c_row ?s c' ! p' = c_row s c' ! p'"
    if "(p', c') \<in> D" for p' c'
  proof -
    have "p' < length (producer_objs s)" "c' < length (consumer_objs s)" "\<not> (p' = p \<and> c' = c)"
      using that pairedD(1,2)[OF pa that] new by auto
    then show ?thesis by (auto simp: p_row_linked c_row_linked)
  qed
  have new_row: "p_row ?s p ! c = Some ?q \<and> c_row ?s c ! p = Some ?q"
    using p c pk ck rp rc by (simp add: p_row_linked c_row_linked)
  have lt: "q' < ?q" if "(p', c') \<in> D" "p_row ?s p' ! c' = Some q'" for p' c' q'
    using that old[OF that(1)] pairedD(4)[OF pa that(1)] by simp
  have 5: "paired ?s (insert (p, c) D)"
    unfolding paired_def
  proof (intro allI impI)
    fix p' c' assume "(p', c') \<in> insert (p, c) D"
    then consider "p' = p" "c' = c" | "(p', c') \<in> D" by auto
    then show "p' < length (producer_objs ?s) \<and> c' < length (consumer_objs ?s) \<and>
        p_row ?s p' ! c' = c_row ?s c' ! p' \<and>
        (\<forall>q. p_row ?s p' ! c' = Some q \<longrightarrow> q < length (queue_objs ?s))"
    proof cases
      case 1 then show ?thesis using new_row p c by simp
    next
      case 2
      have "\<forall>q. p_row ?s p' ! c' = Some q \<longrightarrow> q < length (queue_objs ?s)"
        using lt[OF 2] by (simp add: less_Suc_eq)
      then show ?thesis using old[OF 2] pairedD(1,2,3)[OF pa 2] by simp
    qed
  qed
  have 6: "unshared ?s (insert (p, c) D)"
    unfolding unshared_def
  proof (intro allI impI)
    fix p1 c1 p2 c2 q
    assume a: "(p1, c1) \<in> insert (p, c) D" "(p2, c2) \<in> insert (p, c) D"
      "p_row ?s p1 ! c1 = Some q" "p_row ?s p2 ! c2 = Some q"
    show "p1 = p2 \<and> c1 = c2"
    proof (cases "(p1, c1) \<in> D")
      case True
      note d1 = this
      show ?thesis
      proof (cases "(p2, c2) \<in> D")
        case True
        have "p_row s p1 ! c1 = Some q" "p_row s p2 ! c2 = Some q"
          using a(3,4) old[OF d1] old[OF True] by simp_all
        then show ?thesis by (rule unsharedD[OF un d1 True])
      next
        case False
        then have "p2 = p" "c2 = c" using a(2) by auto
        then show ?thesis using lt[OF d1 a(3)] a(4) new_row by simp
      qed
    next
      case False
      then have e1: "p1 = p" "c1 = c" using a(1) by auto
      show ?thesis
      proof (cases "(p2, c2) \<in> D")
        case True
        then show ?thesis using lt[OF True a(4)] a(3) new_row e1 by simp
      next
        case False
        then show ?thesis using a(2) e1 by auto
      qed
    qed
  qed
  show ?thesis
    using 1 3 4 5 6 by (simp add: grid_def)
qed

lemma link_queue_linked:
  assumes "c < length (consumer_objs s)" "p < length (producer_objs s)"
    "p < length (c_row s c)" "c < length (p_row s p)"
  shows "link_queue c p p c s = Returned () (linked c p s)"
  using assms by (simp add: link_queue_def Let_def p_row_def c_row_def linked_def)

lemma RegisterConsumer_loop_grid:
  assumes "grid s (D0 \<union> {..<i} \<times> {cc})" "\<forall>p. (p, cc) \<notin> D0"
    "i \<le> producer_count s" "length (producer_objs s) = producer_count s"
    "cc < length (consumer_objs s)"
    "\<forall>p<producer_count s. producers s ! p = Some p"
  shows "\<exists>s'. RegisterConsumer_loop i cc cc s = Returned () s' \<and>
           grid s' (D0 \<union> {..<producer_count s} \<times> {cc}) \<and> same_but_rows s s'"
  using assms
proof (induction "producer_count s - i" arbitrary: i s)
  case 0
  then have "i = producer_count s" by simp
  then show ?case
    using "0.prems"(1) by (simp add: RegisterConsumer_loop.simps same_but_rows_refl)
next
  case (Suc n)
  let ?t = "linked cc i s"
  from Suc.hyps(2) have i: "i < producer_count s" by simp
  from Suc.prems(1) have rs: "rows_sized s" by (simp add: grid_def)
  have ip: "i < length (producer_objs s)" using i Suc.prems(4) by simp
  have ik: "i < length (producers s)"
    using ip rows_sizedD(1)[OF rs] by (simp add: kMaxProducers_def)
  have lk: "link_queue cc i i cc s = Returned () ?t"
  proof (rule link_queue_linked[OF Suc.prems(5) ip])
    show "i < length (c_row s cc)"
      using rows_sizedD(4)[OF rs Suc.prems(5)] ik by (simp add: kMaxProducers_def)
    show "cc < length (p_row s i)"
      using rows_sizedD(3)[OF rs ip] rows_sizedD(2)[OF rs] Suc.prems(5) by simp
  qed
  have new: "(i, cc) \<notin> D0 \<union> {..<i} \<times> {cc}" using Suc.prems(2) by simp
  have g: "grid ?t (D0 \<union> {..<Suc i} \<times> {cc})"
  proof -
    have "insert (i, cc) (D0 \<union> {..<i} \<times> {cc}) = D0 \<union> {..<Suc i} \<times> {cc}"
      by (auto simp: less_Suc_eq)
    then show ?thesis
      using grid_linked[OF Suc.prems(1) ip Suc.prems(5) new] by simp
  qed
  have "\<exists>s'. RegisterConsumer_loop (Suc i) cc cc ?t = Returned () s' \<and>
           grid s' (D0 \<union> {..<producer_count ?t} \<times> {cc}) \<and> same_but_rows ?t s'"
  proof (rule Suc.hyps(1))
    show "n = producer_count ?t - Suc i" using Suc.hyps(2) by simp
    show "grid ?t (D0 \<union> {..<Suc i} \<times> {cc})" by (rule g)
    show "\<forall>p. (p, cc) \<notin> D0" by (rule Suc.prems(2))
    show "Suc i \<le> producer_count ?t" using i by simp
    show "length (producer_objs ?t) = producer_count ?t" using Suc.prems(4) by simp
    show "cc < length (consumer_objs ?t)" using Suc.prems(5) by simp
    show "\<forall>p<producer_count ?t. producers ?t ! p = Some p" using Suc.prems(6) by simp
  qed
  then obtain s' where s': "RegisterConsumer_loop (Suc i) cc cc ?t = Returned () s'"
    "grid s' (D0 \<union> {..<producer_count s} \<times> {cc})" "same_but_rows ?t s'"
    by auto
  have "RegisterConsumer_loop i cc cc s = Returned () s'"
    using i ik Suc.prems(6) lk s'(1)
    by (subst RegisterConsumer_loop.simps) simp
  moreover have "same_but_rows s s'"
    using same_but_rows_linked[OF ip Suc.prems(5)] s'(3) by (rule same_but_rows_trans)
  ultimately show ?case using s'(2) by blast
qed

lemma RegisterProducer_loop_grid:
  assumes "grid s (D0 \<union> {pc} \<times> {..<i})" "\<forall>c. (pc, c) \<notin> D0"
    "i \<le> consumer_count s" "length (consumer_objs s) = consumer_count s"
    "pc < length (producer_objs s)"
    "\<forall>c<consumer_count s. consumers s ! c = Some c"
  shows "\<exists>s'. RegisterProducer_loop i pc pc s = Returned () s' \<and>
           grid s' (D0 \<union> {pc} \<times> {..<consumer_count s}) \<and> same_but_rows s s'"
  using assms
proof (induction "consumer_count s - i" arbitrary: i s)
  case 0
  then have "i = consumer_count s" by simp
  then show ?case
    using "0.prems"(1) by (simp add: RegisterProducer_loop.simps same_but_rows_refl)
next
  case (Suc n)
  let ?t = "linked i pc s"
  from Suc.hyps(2) have i: "i < consumer_count s" by simp
  from Suc.prems(1) have rs: "rows_sized s" by (simp add: grid_def)
  have ic: "i < length (consumer_objs s)" using i Suc.prems(4) by simp
  have ik: "i < length (consumers s)"
    using ic rows_sizedD(2)[OF rs] by (simp add: kMaxConsumers_def)
  have lk: "link_queue i pc pc i s = Returned () ?t"
  proof (rule link_queue_linked[OF ic Suc.prems(5)])
    show "pc < length (c_row s i)"
      using rows_sizedD(4)[OF rs ic] rows_sizedD(1)[OF rs] Suc.prems(5) by simp
    show "i < length (p_row s pc)"
      using rows_sizedD(3)[OF rs Suc.prems(5)] ik by (simp add: kMaxConsumers_def)
  qed
  have new: "(pc, i) \<notin> D0 \<union> {pc} \<times> {..<i}" using Suc.prems(2) by simp
  have g: "grid ?t (D0 \<union> {pc} \<times> {..<Suc i})"
  proof -
    have "insert (pc, i) (D0 \<union> {pc} \<times> {..<i}) = D0 \<union> {pc} \<times> {..<Suc i}"
      by (auto simp: less_Suc_eq)
    then show ?thesis
      using grid_linked[OF Suc.prems(1) Suc.prems(5) ic new] by simp
  qed
  have "\<exists>s'. RegisterProducer_loop (Suc i) pc pc ?t = Returned () s' \<and>
           grid s' (D0 \<union> {pc} \<times> {..<consumer_count ?t}) \<and> same_but_rows ?t s'"
  proof (rule Suc.hyps(1))
    show "n = consumer_count ?t - Suc i" using Suc.hyps(2) by simp
    show "grid ?t (D0 \<union> {pc} \<times> {..<Suc i})" by (rule g)
    show "\<forall>c. (pc, c) \<notin> D0" by (rule Suc.prems(2))
    show "Suc i \<le> consumer_count ?t" using i by simp
    show "length (consumer_objs ?t) = consumer_count ?t" using Suc.prems(4) by simp
    show "pc < length (producer_objs ?t)" using Suc.prems(5) by simp
    show "\<forall>c<consumer_count ?t. consumers ?t ! c = Some c" using Suc.prems(6) by simp
  qed
  then obtain s' where s': "RegisterProducer_loop (Suc i) pc pc ?t = Returned () s'"
    "grid s' (D0 \<union> {pc} \<times> {..<consumer_count s})" "same_but_rows ?t s'"
    by auto
  have "RegisterProducer_loop i pc pc s = Returned () s'"
    using i ik Suc.prems(6) lk s'(1)
    by (subst RegisterProducer_loop.simps) simp
  moreover have "same_but_rows s s'"
    using same_but_rows_linked[OF Suc.prems(5) ic] s'(3) by (rule same_but_rows_trans)
  ultimately show ?case using s'(2) by blast
qed

lemma grid_transfer:
  assumes g: "grid s D" and sr: "same_rows s s'"
  shows "grid s' D"
proof -
  from g have rs: "rows_sized s" and wp: "wired_p s D" and wc: "wired_c s D"
    and pa: "paired s D" and un: "unshared s D"
    by (simp_all add: grid_def)
  from sr have k: "kMaxProducers s' = kMaxProducers s" "kMaxConsumers s' = kMaxConsumers s"
    and l: "length (producer_objs s') = length (producer_objs s)"
      "length (consumer_objs s') = length (consumer_objs s)"
    and q: "length (queue_objs s) \<le> length (queue_objs s')"
    and pr: "\<And>p. p < length (producer_objs s) \<Longrightarrow> p_row s' p = p_row s p"
    and cr: "\<And>c. c < length (consumer_objs s) \<Longrightarrow> c_row s' c = c_row s c"
    by (simp_all add: same_rows_def)
  have 1: "rows_sized s'"
    using rs by (simp add: rows_sized_def k l pr cr)
  have 2: "wired_p s' D"
    using wp by (simp add: wired_p_def k l pr)
  have 3: "wired_c s' D"
    using wc by (simp add: wired_c_def k l cr)
  have 4: "paired s' D"
    unfolding paired_def
  proof (intro allI impI)
    fix p c assume d: "(p, c) \<in> D"
    note x = pairedD[OF pa d]
    have "\<forall>q. p_row s' p ! c = Some q \<longrightarrow> q < length (queue_objs s')"
      using x(4) q pr[OF x(1)] by fastforce
    then show "p < length (producer_objs s') \<and> c < length (consumer_objs s') \<and>
        p_row s' p ! c = c_row s' c ! p \<and>
        (\<forall>q. p_row s' p ! c = Some q \<longrightarrow> q < length (queue_objs s'))"
      using x(1,2,3) l pr[OF x(1)] cr[OF x(2)] by simp
  qed
  have 5: "unshared s' D"
    unfolding unshared_def
  proof (intro allI impI)
    fix p c p' c' q
    assume d: "(p, c) \<in> D" "(p', c') \<in> D"
      and e: "p_row s' p ! c = Some q" "p_row s' p' ! c' = Some q"
    have "p_row s p ! c = Some q" "p_row s p' ! c' = Some q"
      using e pr[OF pairedD(1)[OF pa d(1)]] pr[OF pairedD(1)[OF pa d(2)]] by simp_all
    then show "p = p' \<and> c = c'" by (rule unsharedD[OF un d])
  qed
  show ?thesis using 1 2 3 4 5 by (simp add: grid_def)
qed

lemma same_but_rows_objs:
  assumes "same_but_rows s s'"
  shows "length (producer_objs s') = length (producer_objs s)"
    and "length (consumer_objs s') = length (consumer_objs s)"
    and "p < length (producer_objs s) \<Longrightarrow>
           producer_index (producer_objs s' ! p) = producer_index (producer_objs s ! p) \<and>
           is_registered (producer_objs s' ! p) = is_registered (producer_objs s ! p) \<and>
           p_cur_index (producer_objs s' ! p) = p_cur_index (producer_objs s ! p)"
    and "c < length (consumer_objs s) \<Longrightarrow>
           consumer_index (consumer_objs s' ! c) = consumer_index (consumer_objs s ! c) \<and>
           c_cur_index (consumer_objs s' ! c) = c_cur_index (consumer_objs s ! c) \<and>
           cur_index_read_cnt (consumer_objs s' ! c) = cur_index_read_cnt (consumer_objs s ! c)"
proof -
  let ?f = "\<lambda>pr::Producer. pr\<lparr>p_queue_vec := []\<rparr>" and ?g = "\<lambda>co::Consumer. co\<lparr>c_queue_vec := []\<rparr>"
  from assms have m: "map ?f (producer_objs s') = map ?f (producer_objs s)"
    and n: "map ?g (consumer_objs s') = map ?g (consumer_objs s)"
    by (simp_all add: same_but_rows_def)
  show lp: "length (producer_objs s') = length (producer_objs s)"
    using m by (rule map_eq_imp_length_eq)
  show lc: "length (consumer_objs s') = length (consumer_objs s)"
    using n by (rule map_eq_imp_length_eq)
  show "producer_index (producer_objs s' ! p) = producer_index (producer_objs s ! p) \<and>
           is_registered (producer_objs s' ! p) = is_registered (producer_objs s ! p) \<and>
           p_cur_index (producer_objs s' ! p) = p_cur_index (producer_objs s ! p)"
    if "p < length (producer_objs s)"
  proof -
    have "map ?f (producer_objs s') ! p = map ?f (producer_objs s) ! p" using m by simp
    then have "?f (producer_objs s' ! p) = ?f (producer_objs s ! p)"
      using that lp by simp
    then show ?thesis
      by (metis Producer.select_convs(1,2,3) Producer.surjective Producer.update_convs(4))
  qed
  show "consumer_index (consumer_objs s' ! c) = consumer_index (consumer_objs s ! c) \<and>
           c_cur_index (consumer_objs s' ! c) = c_cur_index (consumer_objs s ! c) \<and>
           cur_index_read_cnt (consumer_objs s' ! c) = cur_index_read_cnt (consumer_objs s ! c)"
    if "c < length (consumer_objs s)"
  proof -
    have "map ?g (consumer_objs s') ! c = map ?g (consumer_objs s) ! c" using n by simp
    then have "?g (consumer_objs s' ! c) = ?g (consumer_objs s ! c)"
      using that lc by simp
    then show ?thesis
      by (metis Consumer.select_convs(1,2,3) Consumer.surjective Consumer.update_convs(4))
  qed
qed

lemma grid_new_consumer:
  assumes g: "grid s D" and fresh: "\<forall>p. (p, length (consumer_objs s)) \<notin> D"
    and room: "length (consumer_objs s) < kMaxConsumers s"
  shows "grid (s\<lparr>consumer_objs := consumer_objs s @ [Consumer_new (kMaxProducers s) i]\<rparr>) D"
proof -
  let ?s = "s\<lparr>consumer_objs := consumer_objs s @ [Consumer_new (kMaxProducers s) i]\<rparr>"
  from g have rs: "rows_sized s" and wp: "wired_p s D" and wc: "wired_c s D"
    and pa: "paired s D" and un: "unshared s D"
    by (simp_all add: grid_def)
  have k: "kMaxProducers ?s = kMaxProducers s" "kMaxConsumers ?s = kMaxConsumers s"
    by (simp_all add: kMaxProducers_def kMaxConsumers_def)
  have pr: "p_row ?s p = p_row s p" for p by (simp add: p_row_def)
  have cr: "c_row ?s c = (if c < length (consumer_objs s) then c_row s c
                          else replicate (kMaxProducers s) None)"
    if "c \<le> length (consumer_objs s)" for c
    using that by (auto simp: c_row_def nth_append Consumer_new_def)
  have 1: "rows_sized ?s"
    using rs room by (auto simp: rows_sized_def k pr cr less_Suc_eq)
  have 2: "wired_p ?s D"
    using wp by (simp add: wired_p_def k pr)
  have 3: "wired_c ?s D"
    unfolding wired_c_def
  proof (intro allI impI)
    fix c p assume a: "c < length (consumer_objs ?s)" "p < kMaxProducers ?s"
    show "(c_row ?s c ! p \<noteq> None) = ((p, c) \<in> D)"
    proof (cases "c < length (consumer_objs s)")
      case True
      then show ?thesis using wired_cD[OF wc True, of p] a(2) by (simp add: cr k)
    next
      case False
      then have "c = length (consumer_objs s)" using a(1) by simp
      then show ?thesis using fresh a(2) by (simp add: cr k)
    qed
  qed
  have 4: "paired ?s D"
    unfolding paired_def
  proof (intro allI impI)
    fix p c assume d: "(p, c) \<in> D"
    note x = pairedD[OF pa d]
    have "\<forall>q. p_row s p ! c = Some q \<longrightarrow> q < length (queue_objs s)"
      using x(4) by blast
    then show "p < length (producer_objs ?s) \<and> c < length (consumer_objs ?s) \<and>
        p_row ?s p ! c = c_row ?s c ! p \<and>
        (\<forall>q. p_row ?s p ! c = Some q \<longrightarrow> q < length (queue_objs ?s))"
      using x(1,2,3) by (simp add: pr cr)
  qed
  have 5: "unshared ?s D"
    using un by (simp add: unshared_def pr)
  show ?thesis using 1 2 3 4 5 by (simp add: grid_def)
qed

lemma grid_new_producer:
  assumes g: "grid s D" and fresh: "\<forall>c. (length (producer_objs s), c) \<notin> D"
    and room: "length (producer_objs s) < kMaxProducers s"
  shows "grid (s\<lparr>producer_objs := producer_objs s @ [Producer_new (kMaxConsumers s) i]\<rparr>) D"
proof -
  let ?s = "s\<lparr>producer_objs := producer_objs s @ [Producer_new (kMaxConsumers s) i]\<rparr>"
  from g have rs: "rows_sized s" and wp: "wired_p s D" and wc: "wired_c s D"
    and pa: "paired s D" and un: "unshared s D"
    by (simp_all add: grid_def)
  have k: "kMaxProducers ?s = kMaxProducers s" "kMaxConsumers ?s = kMaxConsumers s"
    by (simp_all add: kMaxProducers_def kMaxConsumers_def)
  have cr: "c_row ?s c = c_row s c" for c by (simp add: c_row_def)
  have pr: "p_row ?s p = (if p < length (producer_objs s) then p_row s p
                          else replicate (kMaxConsumers s) None)"
    if "p \<le> length (producer_objs s)" for p
    using that by (auto simp: p_row_def nth_append Producer_new_def)
  have 1: "rows_sized ?s"
    using rs room by (auto simp: rows_sized_def k pr cr less_Suc_eq)
  have 2: "wired_c ?s D"
    using wc by (simp add: wired_c_def k cr)
  have 3: "wired_p ?s D"
    unfolding wired_p_def
  proof (intro allI impI)
    fix p c assume a: "p < length (producer_objs ?s)" "c < kMaxConsumers ?s"
    show "(p_row ?s p ! c \<noteq> None) = ((p, c) \<in> D)"
    proof (cases "p < length (producer_objs s)")
      case True
      then show ?thesis using wired_pD[OF wp True, of c] a(2) by (simp add: pr k)
    next
      case False
      then have "p = length (producer_objs s)" using a(1) by simp
      then show ?thesis using fresh a(2) by (simp add: pr k)
    qed
  qed
  have old: "p_row ?s p ! c = p_row s p ! c" if "(p, c) \<in> D" for p c
    using pairedD(1)[OF pa that] by (simp add: pr)
  have 4: "paired ?s D"
    unfolding paired_def
  proof (intro allI impI)
    fix p c assume d: "(p, c) \<in> D"
    note x = pairedD[OF pa d]
    have "\<forall>q. p_row s p ! c = Some q \<longrightarrow> q < length (queue_objs s)"
      using x(4) by blast
    then show "p < length (producer_objs ?s) \<and> c < length (consumer_objs ?s) \<and>
        p_row ?s p ! c = c_row ?s c ! p \<and>
        (\<forall>q. p_row ?s p ! c = Some q \<longrightarrow> q < length (queue_objs ?s))"
      using x(1,2,3) by (simp add: pr cr)
  qed
  have 5: "unshared ?s D"
    unfolding unshared_def
  proof (intro allI impI)
    fix p c p' c' q
    assume d: "(p, c) \<in> D" "(p', c') \<in> D"
      and e: "p_row ?s p ! c = Some q" "p_row ?s p' ! c' = Some q"
    have "p_row s p ! c = Some q" "p_row s p' ! c' = Some q"
      using e old[OF d(1)] old[OF d(2)] by simp_all
    then show "p = p' \<and> c = c'" by (rule unsharedD[OF un d])
  qed
  show ?thesis using 1 2 3 4 5 by (simp add: grid_def)
qed

lemma matrix_inv_bounds:
  assumes "matrix_inv s"
  shows "producer_count s \<le> kMaxProducers s" and "consumer_count s \<le> kMaxConsumers s"
  using assms by (auto simp: matrix_inv_def tables_ok_def grid_def rows_sized_def)

lemma RegisterConsumer_inv:
  assumes inv: "matrix_inv s" and room: "consumer_count s < kMaxConsumers s"
  shows "\<exists>s'. RegisterConsumer s = Returned (Some (consumer_count s)) s' \<and> matrix_inv s' \<and>
           consumer_count s' = Suc (consumer_count s) \<and> producer_count s' = producer_count s \<and>
           kMaxProducers s' = kMaxProducers s \<and> kMaxConsumers s' = kMaxConsumers s \<and>
           reclaimed_producers s' = reclaimed_producers s \<and>
           length (consumer_objs s') = Suc (length (consumer_objs s)) \<and>
           cur_index_read_cnt (consumer_objs s' ! length (consumer_objs s)) = 0 \<and>
           (\<forall>c<length (consumer_objs s).
              c_cur_index (consumer_objs s' ! c) = c_cur_index (consumer_objs s ! c) \<and>
              cur_index_read_cnt (consumer_objs s' ! c) = cur_index_read_cnt (consumer_objs s ! c))"
proof -
  let ?cc = "consumer_count s" and ?pc = "producer_count s"
  let ?D0 = "{..<?pc} \<times> {..<?cc}"
  let ?s1 = "s\<lparr>consumer_objs := consumer_objs s @ [Consumer_new (kMaxProducers s) ?cc]\<rparr>"
  from inv have t: "tables_ok s" and r: "reclaim_ok s" and g: "grid s ?D0"
    by (simp_all add: matrix_inv_def)
  from t have lp: "length (producer_objs s) = ?pc" and lc: "length (consumer_objs s) = ?cc"
    and tp: "\<And>p. p < kMaxProducers s \<Longrightarrow> producers s ! p = (if p < ?pc then Some p else None)"
    and tc: "\<And>c. c < kMaxConsumers s \<Longrightarrow> consumers s ! c = (if c < ?cc then Some c else None)"
    and ti: "\<And>p. p < ?pc \<Longrightarrow> producer_index (producer_objs s ! p) = p"
    by (simp_all add: tables_ok_def)
  note pk = matrix_inv_bounds(1)[OF inv]
  have g1: "grid ?s1 ?D0"
    using g room by (intro grid_new_consumer) (simp_all add: lc)
  have "\<exists>s'. RegisterConsumer_loop 0 ?cc ?cc ?s1 = Returned () s' \<and>
           grid s' (?D0 \<union> {..<producer_count ?s1} \<times> {?cc}) \<and> same_but_rows ?s1 s'"
  proof (rule RegisterConsumer_loop_grid)
    show "grid ?s1 (?D0 \<union> {..<0} \<times> {?cc})" using g1 by simp
    show "\<forall>p. (p, ?cc) \<notin> ?D0" by simp
    show "0 \<le> producer_count ?s1" by simp
    show "length (producer_objs ?s1) = producer_count ?s1" using lp by simp
    show "?cc < length (consumer_objs ?s1)" using lc by simp
    show "\<forall>p<producer_count ?s1. producers ?s1 ! p = Some p" using tp pk by simp
  qed
  then obtain s2 where s2: "RegisterConsumer_loop 0 ?cc ?cc ?s1 = Returned () s2"
    "grid s2 (?D0 \<union> {..<?pc} \<times> {?cc})" "same_but_rows ?s1 s2"
    by auto
  let ?s' = "s2\<lparr>consumers := (consumers s2)[?cc := Some ?cc], consumer_count := ?cc + 1\<rparr>"
  have res: "RegisterConsumer s = Returned (Some ?cc) ?s'"
    using room s2(1) by (simp add: RegisterConsumer_def Let_def lc)
  from s2(3) have f: "qlen s2 = qlen s" "producers s2 = producers s" "consumers s2 = consumers s"
    "producer_count s2 = ?pc" "consumer_count s2 = ?cc"
    "reclaimed_producers s2 = reclaimed_producers s"
    by (simp_all add: same_but_rows_def)
  note o = same_but_rows_objs[OF s2(3)]
  have k: "kMaxProducers ?s' = kMaxProducers s" "kMaxConsumers ?s' = kMaxConsumers s"
    by (simp_all add: kMaxProducers_def kMaxConsumers_def f)
  have flag: "producer_index (producer_objs s2 ! p) = producer_index (producer_objs s ! p) \<and>
      is_registered (producer_objs s2 ! p) = is_registered (producer_objs s ! p)" if "p < ?pc" for p
    using o(3)[of p] that lp by simp
  have t': "tables_ok ?s'"
    unfolding tables_ok_def
  proof (intro conjI allI impI)
    show "length (producer_objs ?s') = producer_count ?s'" using o(1) lp f by simp
    show "length (consumer_objs ?s') = consumer_count ?s'" using o(2) lc by simp
    show "producers ?s' ! p = (if p < producer_count ?s' then Some p else None)"
      if "p < kMaxProducers ?s'" for p
      using that tp[of p] by (simp add: f kMaxProducers_def)
    show "consumers ?s' ! c = (if c < consumer_count ?s' then Some c else None)"
      if "c < kMaxConsumers ?s'" for c
      using that tc[of c] room
      by (auto simp: f k nth_list_update kMaxConsumers_def)
    show "producer_index (producer_objs ?s' ! p) = p" if "p < producer_count ?s'" for p
      using that flag[of p] ti[of p] by (simp add: f)
  qed
  have r': "reclaim_ok ?s'"
    using r flag unfolding reclaim_ok_def by (auto simp: f)
  have g': "grid ?s' ({..<producer_count ?s'} \<times> {..<consumer_count ?s'})"
  proof -
    have "?D0 \<union> {..<?pc} \<times> {?cc} = {..<?pc} \<times> {..<Suc ?cc}"
      by (auto simp: less_Suc_eq)
    then have "grid s2 ({..<?pc} \<times> {..<Suc ?cc})" using s2(2) by simp
    moreover have "same_rows s2 ?s'"
      by (simp add: same_rows_def kMaxProducers_def kMaxConsumers_def p_row_def c_row_def)
    ultimately show ?thesis using grid_transfer by (fastforce simp: f)
  qed
  have cons: "length (consumer_objs ?s') = Suc (length (consumer_objs s))"
    using o(2) by simp
  have fresh: "cur_index_read_cnt (consumer_objs ?s' ! length (consumer_objs s)) = 0"
    using o(4)[of "length (consumer_objs s)"] by (simp add: nth_append Consumer_new_def)
  have keep: "\<forall>c<length (consumer_objs s).
              c_cur_index (consumer_objs ?s' ! c) = c_cur_index (consumer_objs s ! c) \<and>
              cur_index_read_cnt (consumer_objs ?s' ! c) = cur_index_read_cnt (consumer_objs s ! c)"
  proof (intro allI impI)
    fix c assume "c < length (consumer_objs s)"
    then show "c_cur_index (consumer_objs ?s' ! c) = c_cur_index (consumer_objs s ! c) \<and>
              cur_index_read_cnt (consumer_objs ?s' ! c) = cur_index_read_cnt (consumer_objs s ! c)"
      using o(4)[of c] by (simp add: nth_append)
  qed
  have inv': "matrix_inv ?s'" using t' r' g' by (simp add: matrix_inv_def)
  have cnt: "consumer_count ?s' = Suc ?cc" "producer_count ?s' = ?pc"
    "reclaimed_producers ?s' = reclaimed_producers s"
    by (simp_all add: f)
  show ?thesis
    using res inv' cnt k cons fresh keep by blast
qed

lemma RegisterProducer_fresh_inv:
  assumes inv: "matrix_inv s" and empty: "reclaimed_producers s = []"
    and room: "producer_count s < kMaxProducers s"
  shows "\<exists>s'. RegisterProducer s = Returned (Some (producer_count s)) s' \<and> matrix_inv s' \<and>
           producer_count s' = Suc (producer_count s) \<and> consumer_count s' = consumer_count s \<and>
           kMaxProducers s' = kMaxProducers s \<and> kMaxConsumers s' = kMaxConsumers s \<and>
           reclaimed_producers s' = [] \<and>
           length (consumer_objs s') = length (consumer_objs s) \<and>
           (\<forall>c<length (consumer_objs s).
              c_cur_index (consumer_objs s' ! c) = c_cur_index (consumer_objs s ! c) \<and>
              cur_index_read_cnt (consumer_objs s' ! c) = cur_index_read_cnt (consumer_objs s ! c))"
proof -
  let ?cc = "consumer_count s" and ?pc = "producer_count s"
  let ?D0 = "{..<?pc} \<times> {..<?cc}"
  let ?s1 = "s\<lparr>producer_objs := producer_objs s @ [Producer_new (kMaxConsumers s) ?pc]\<rparr>"
  from inv have t: "tables_ok s" and r: "reclaim_ok s" and g: "grid s ?D0"
    by (simp_all add: matrix_inv_def)
  from t have lp: "length (producer_objs s) = ?pc" and lc: "length (consumer_objs s) = ?cc"
    and tp: "\<And>p. p < kMaxProducers s \<Longrightarrow> producers s ! p = (if p < ?pc then Some p else None)"
    and tc: "\<And>c. c < kMaxConsumers s \<Longrightarrow> consumers s ! c = (if c < ?cc then Some c else None)"
    and ti: "\<And>p. p < ?pc \<Longrightarrow> producer_index (producer_objs s ! p) = p"
    by (simp_all add: tables_ok_def)
  note ck = matrix_inv_bounds(2)[OF inv]
  have g1: "grid ?s1 ?D0"
    using g room by (intro grid_new_producer) (simp_all add: lp)
  have "\<exists>s'. RegisterProducer_loop 0 ?pc ?pc ?s1 = Returned () s' \<and>
           grid s' (?D0 \<union> {?pc} \<times> {..<consumer_count ?s1}) \<and> same_but_rows ?s1 s'"
  proof (rule RegisterProducer_loop_grid)
    show "grid ?s1 (?D0 \<union> {?pc} \<times> {..<0})" using g1 by simp
    show "\<forall>c. (?pc, c) \<notin> ?D0" by simp
    show "0 \<le> consumer_count ?s1" by simp
    show "length (consumer_objs ?s1) = consumer_count ?s1" using lc by simp
    show "?pc < length (producer_objs ?s1)" using lp by simp
    show "\<forall>c<consumer_count ?s1. consumers ?s1 ! c = Some c" using tc ck by simp
  qed
  then obtain s2 where s2: "RegisterProducer_loop 0 ?pc ?pc ?s1 = Returned () s2"
    "grid s2 (?D0 \<union> {?pc} \<times> {..<?cc})" "same_but_rows ?s1 s2"
    by auto
  let ?s' = "s2\<lparr>producers := (producers s2)[?pc := Some ?pc], producer_count := ?pc + 1\<rparr>"
  have res: "RegisterProducer s = Returned (Some ?pc) ?s'"
    using room empty s2(1) by (simp add: RegisterProducer_def Let_def lp)
  from s2(3) have f: "qlen s2 = qlen s" "producers s2 = producers s" "consumers s2 = consumers s"
    "producer_count s2 = ?pc" "consumer_count s2 = ?cc"
    "reclaimed_producers s2 = reclaimed_producers s"
    by (simp_all add: same_but_rows_def)
  note o = same_but_rows_objs[OF s2(3)]
  have k: "kMaxProducers ?s' = kMaxProducers s" "kMaxConsumers ?s' = kMaxConsumers s"
    by (simp_all add: kMaxProducers_def kMaxConsumers_def f)
  have flag: "producer_index (producer_objs s2 ! p) = producer_index (producer_objs ?s1 ! p) \<and>
      is_registered (producer_objs s2 ! p) = is_registered (producer_objs ?s1 ! p)"
    if "p \<le> ?pc" for p
    using o(3)[of p] that lp by simp
  have old: "producer_objs ?s1 ! p = producer_objs s ! p" if "p < ?pc" for p
    using that lp by (simp add: nth_append)
  have new: "producer_index (producer_objs ?s1 ! ?pc) = ?pc \<and> is_registered (producer_objs ?s1 ! ?pc)"
    using lp by (simp add: nth_append Producer_new_def)
  have t': "tables_ok ?s'"
    unfolding tables_ok_def
  proof (intro conjI allI impI)
    show "length (producer_objs ?s') = producer_count ?s'" using o(1) lp by simp
    show "length (consumer_objs ?s') = consumer_count ?s'" using o(2) lc f by simp
    show "producers ?s' ! p = (if p < producer_count ?s' then Some p else None)"
      if "p < kMaxProducers ?s'" for p
      using that tp[of p] room
      by (auto simp: f k nth_list_update kMaxProducers_def)
    show "consumers ?s' ! c = (if c < consumer_count ?s' then Some c else None)"
      if "c < kMaxConsumers ?s'" for c
      using that tc[of c] by (simp add: f kMaxConsumers_def)
    show "producer_index (producer_objs ?s' ! p) = p" if "p < producer_count ?s'" for p
    proof (cases "p < ?pc")
      case True
      then show ?thesis using flag[of p] old[of p] ti[of p] by simp
    next
      case False
      then have "p = ?pc" using that by simp
      then show ?thesis using flag[of p] new by simp
    qed
  qed
  have reg: "is_registered (producer_objs s2 ! p)" if "p \<le> ?pc" for p
  proof (cases "p < ?pc")
    case True
    have "p \<notin> set (reclaimed_producers s)" using empty by simp
    then have "is_registered (producer_objs s ! p)"
      using r True unfolding reclaim_ok_def by blast
    then show ?thesis using flag[of p] old[of p] True by simp
  next
    case False
    then have "p = ?pc" using that by simp
    then show ?thesis using flag[of p] new by simp
  qed
  have r': "reclaim_ok ?s'"
    using reg empty unfolding reclaim_ok_def by (auto simp: f less_Suc_eq_le)
  have g': "grid ?s' ({..<producer_count ?s'} \<times> {..<consumer_count ?s'})"
  proof -
    have "?D0 \<union> {?pc} \<times> {..<?cc} = {..<Suc ?pc} \<times> {..<?cc}"
      by (auto simp: less_Suc_eq)
    then have "grid s2 ({..<Suc ?pc} \<times> {..<?cc})" using s2(2) by simp
    moreover have "same_rows s2 ?s'"
      by (simp add: same_rows_def kMaxProducers_def kMaxConsumers_def p_row_def c_row_def)
    ultimately show ?thesis using grid_transfer by (fastforce simp: f)
  qed
  have cons: "length (consumer_objs ?s') = length (consumer_objs s)"
    using o(2) by simp
  have keep: "\<forall>c<length (consumer_objs s).
              c_cur_index (consumer_objs ?s' ! c) = c_cur_index (consumer_objs s ! c) \<and>
              cur_index_read_cnt (consumer_objs ?s' ! c) = cur_index_read_cnt (consumer_objs s ! c)"
  proof (intro allI impI)
    fix c assume "c < length (consumer_objs s)"
    then show "c_cur_index (consumer_objs ?s' ! c) = c_cur_index (consumer_objs s ! c) \<and>
              cur_index_read_cnt (consumer_objs ?s' ! c) = cur_index_read_cnt (consumer_objs s ! c)"
      using o(4)[of c] by simp
  qed
  have inv': "matrix_inv ?s'" using t' r' g' by (simp add: matrix_inv_def)
  have cnt: "producer_count ?s' = Suc ?pc" "consumer_count ?s' = ?cc"
    "reclaimed_producers ?s' = []"
    using empty by (simp_all add: f)
  show ?thesis
    using res inv' cnt k cons keep by blast
qed

lemma set_registered_fields [simp]:
  "qlen (set_registered a b rs s) = qlen s"
  "producers (set_registered a b rs s) = producers s"
  "consumers (set_registered a b rs s) = consumers s"
  "producer_count (set_registered a b rs s) = producer_count s"
  "consumer_count (set_registered a b rs s) = consumer_count s"
  "reclaimed_producers (set_registered a b rs s) = rs"
  "consumer_objs (set_registered a b rs s) = consumer_objs s"
  "queue_objs (set_registered a b rs s) = queue_objs s"
  "kMaxProducers (set_registered a b rs s) = kMaxProducers s"
  "kMaxConsumers (set_registered a b rs s) = kMaxConsumers s"
  "length (producer_objs (set_registered a b rs s)) = length (producer_objs s)"
  by (simp_all add: set_registered_def kMaxProducers_def kMaxConsumers_def)

lemma set_registered_obj:
  "p < length (producer_objs s) \<Longrightarrow>
   producer_objs (set_registered a b rs s) ! p =
     (if p = a then (producer_objs s ! a)\<lparr>is_registered := b\<rparr> else producer_objs s ! p)"
  by (simp add: set_registered_def nth_list_update)

lemma same_rows_set_registered: "same_rows s (set_registered a b rs s)"
  by (simp add: same_rows_def p_row_def c_row_def set_registered_obj)

lemma set_registered_inv:
  assumes inv: "matrix_inv s" and a: "a < producer_count s"
    and d: "distinct rs"
    and m: "\<forall>p. p \<in> set rs \<longleftrightarrow> p < producer_count s \<and>
               \<not> (if p = a then b else is_registered (producer_objs s ! p))"
  shows "matrix_inv (set_registered a b rs s)"
proof -
  let ?s' = "set_registered a b rs s"
  from inv have t: "tables_ok s" and g: "grid s ({..<producer_count s} \<times> {..<consumer_count s})"
    by (simp_all add: matrix_inv_def)
  from t have lp: "length (producer_objs s) = producer_count s" by (simp add: tables_ok_def)
  have t': "tables_ok ?s'"
    using t by (auto simp: tables_ok_def set_registered_obj)
  have r': "reclaim_ok ?s'"
    unfolding reclaim_ok_def
  proof (intro conjI allI)
    show "distinct (reclaimed_producers ?s')" using d by simp
    show "p \<in> set (reclaimed_producers ?s') \<longleftrightarrow>
          p < producer_count ?s' \<and> \<not> is_registered (producer_objs ?s' ! p)" for p
      using m[rule_format, of p] lp by (cases "p < producer_count s") (auto simp: set_registered_obj)
  qed
  have g': "grid ?s' ({..<producer_count ?s'} \<times> {..<consumer_count ?s'})"
    using grid_transfer[OF g same_rows_set_registered] by simp
  show ?thesis using t' r' g' by (simp add: matrix_inv_def)
qed

lemma RegisterProducer_reclaim:
  assumes inv: "matrix_inv s" and ne: "reclaimed_producers s \<noteq> []"
  shows "RegisterProducer s =
           Returned (Some (last (reclaimed_producers s)))
             (set_registered (last (reclaimed_producers s)) True
                (butlast (reclaimed_producers s)) s)"
    and "matrix_inv (set_registered (last (reclaimed_producers s)) True
                (butlast (reclaimed_producers s)) s)"
proof -
  let ?k = "last (reclaimed_producers s)" and ?rs = "butlast (reclaimed_producers s)"
  from inv have t: "tables_ok s" and r: "reclaim_ok s" by (simp_all add: matrix_inv_def)
  have mem: "?k \<in> set (reclaimed_producers s)" using ne by simp
  then have k: "?k < producer_count s" "\<not> is_registered (producer_objs s ! ?k)"
    using r unfolding reclaim_ok_def by blast+
  have kk: "?k < kMaxProducers s" using k(1) matrix_inv_bounds(1)[OF inv] by simp
  have tab: "producers s ! ?k = Some ?k" using t k(1) kk by (simp add: tables_ok_def)
  have lp: "length (producer_objs s) = producer_count s" using t by (simp add: tables_ok_def)
  show "RegisterProducer s = Returned (Some ?k) (set_registered ?k True ?rs s)"
    using ne k kk tab lp
    by (simp add: RegisterProducer_def Let_def set_registered_def kMaxProducers_def)
  have sp: "reclaimed_producers s = ?rs @ [?k]" using ne by simp
  have d: "distinct (?rs @ [?k])" using r sp unfolding reclaim_ok_def by simp
  show "matrix_inv (set_registered ?k True ?rs s)"
  proof (rule set_registered_inv[OF inv k(1)])
    show "distinct ?rs" using d by simp
    show "\<forall>p. p \<in> set ?rs \<longleftrightarrow> p < producer_count s \<and>
               \<not> (if p = ?k then True else is_registered (producer_objs s ! p))"
    proof
      fix p
      have "p \<in> set ?rs \<longleftrightarrow> p \<in> set (reclaimed_producers s) \<and> p \<noteq> ?k"
        using d by (subst (2) sp) auto
      then show "p \<in> set ?rs \<longleftrightarrow> p < producer_count s \<and>
               \<not> (if p = ?k then True else is_registered (producer_objs s ! p))"
        using r unfolding reclaim_ok_def by auto
    qed
  qed
qed

lemma UnregisterProducer_ok:
  assumes inv: "matrix_inv s" and a: "a < producer_count s"
    and reg: "is_registered (producer_objs s ! a)"
  shows "UnregisterProducer a s =
           Returned () (set_registered a False (reclaimed_producers s @ [a]) s)"
    and "matrix_inv (set_registered a False (reclaimed_producers s @ [a]) s)"
proof -
  from inv have t: "tables_ok s" and r: "reclaim_ok s" by (simp_all add: matrix_inv_def)
  have ak: "a < kMaxProducers s" using a matrix_inv_bounds(1)[OF inv] by simp
  have lp: "length (producer_objs s) = producer_count s" using t by (simp add: tables_ok_def)
  have idx: "producer_index (producer_objs s ! a) = a" using t a by (simp add: tables_ok_def)
  have tab: "producers s ! a = Some a" using t a ak by (simp add: tables_ok_def)
  show "UnregisterProducer a s =
           Returned () (set_registered a False (reclaimed_producers s @ [a]) s)"
    using a ak lp idx tab reg
    by (simp add: UnregisterProducer_def Let_def set_registered_def)
  have nm: "a \<notin> set (reclaimed_producers s)" using r reg unfolding reclaim_ok_def by blast
  show "matrix_inv (set_registered a False (reclaimed_producers s @ [a]) s)"
  proof (rule set_registered_inv[OF inv a])
    show "distinct (reclaimed_producers s @ [a])" using r nm unfolding reclaim_ok_def by simp
    show "\<forall>p. p \<in> set (reclaimed_producers s @ [a]) \<longleftrightarrow> p < producer_count s \<and>
               \<not> (if p = a then False else is_registered (producer_objs s ! p))"
      using r a unfolding reclaim_ok_def by auto
  qed
qed

lemma hot_step_objs:
  assumes "hot_step s s'"
  shows "length (producer_objs s') = length (producer_objs s)"
    and "length (consumer_objs s') = length (consumer_objs s)"
    and "p < length (producer_objs s) \<Longrightarrow>
           producer_index (producer_objs s' ! p) = producer_index (producer_objs s ! p) \<and>
           is_registered (producer_objs s' ! p) = is_registered (producer_objs s ! p) \<and>
           p_queue_vec (producer_objs s' ! p) = p_queue_vec (producer_objs s ! p)"
    and "c < length (consumer_objs s) \<Longrightarrow>
           c_queue_vec (consumer_objs s' ! c) = c_queue_vec (consumer_objs s ! c)"
proof -
  let ?f = "\<lambda>pr::Producer. pr\<lparr>p_cur_index := 0\<rparr>"
  let ?g = "\<lambda>co::Consumer. co\<lparr>c_cur_index := 0, cur_index_read_cnt := 0\<rparr>"
  from assms have m: "map ?f (producer_objs s') = map ?f (producer_objs s)"
    and n: "map ?g (consumer_objs s') = map ?g (consumer_objs s)"
    by (simp_all add: hot_step_def)
  show lp: "length (producer_objs s') = length (producer_objs s)"
    using m by (rule map_eq_imp_length_eq)
  show lc: "length (consumer_objs s') = length (consumer_objs s)"
    using n by (rule map_eq_imp_length_eq)
  show "producer_index (producer_objs s' ! p) = producer_index (producer_objs s ! p) \<and>
           is_registered (producer_objs s' ! p) = is_registered (producer_objs s ! p) \<and>
           p_queue_vec (producer_objs s' ! p) = p_queue_vec (producer_objs s ! p)"
    if "p < length (producer_objs s)"
  proof -
    have "map ?f (producer_objs s') ! p = map ?f (producer_objs s) ! p" using m by simp
    then have "?f (producer_objs s' ! p) = ?f (producer_objs s ! p)"
      using that lp by simp
    then show ?thesis
      by (metis Producer.select_convs(1,2,4) Producer.surjective Producer.update_convs(3))
  qed
  show "c_queue_vec (consumer_objs s' ! c) = c_queue_vec (consumer_objs s ! c)"
    if "c < length (consumer_objs s)"
  proof -
    have "map ?g (consumer_objs s') ! c = map ?g (consumer_objs s) ! c" using n by simp
    then have "?g (consumer_objs s' ! c) = ?g (consumer_objs s ! c)"
      using that lc by simp
    then show ?thesis
      by (metis Consumer.select_convs(4) Consumer.surjective Consumer.update_convs(2,3))
  qed
qed

lemma hot_step_inv:
  assumes inv: "matrix_inv s" and h: "hot_step s s'"
  shows "matrix_inv s'"
proof -
  from inv have t: "tables_ok s" and r: "reclaim_ok s"
    and g: "grid s ({..<producer_count s} \<times> {..<consumer_count s})"
    by (simp_all add: matrix_inv_def)
  from h have f: "qlen s' = qlen s" "producers s' = producers s" "consumers s' = consumers s"
    "producer_count s' = producer_count s" "consumer_count s' = consumer_count s"
    "reclaimed_producers s' = reclaimed_producers s"
    "length (queue_objs s') = length (queue_objs s)"
    by (simp_all add: hot_step_def)
  note o = hot_step_objs[OF h]
  from t have lp: "length (producer_objs s) = producer_count s" by (simp add: tables_ok_def)
  have t': "tables_ok s'"
    using t o(1,2) o(3) by (simp add: tables_ok_def f kMaxProducers_def kMaxConsumers_def)
  have r': "reclaim_ok s'"
    using r o(3) lp unfolding reclaim_ok_def by (auto simp: f)
  have "same_rows s s'"
    using o by (simp add: same_rows_def f kMaxProducers_def kMaxConsumers_def p_row_def c_row_def)
  then have g': "grid s' ({..<producer_count s'} \<times> {..<consumer_count s'})"
    using grid_transfer[OF g] by (simp add: f)
  show ?thesis using t' r' g' by (simp add: matrix_inv_def)
qed

lemma hot_step_refl: "hot_step s s"
  by (simp add: hot_step_def)

lemma hot_step_queues:
  "length qs = length (queue_objs s) \<Longrightarrow> hot_step s (s\<lparr>queue_objs := qs\<rparr>)"
  by (simp add: hot_step_def)

lemma hot_step_set_p_cur_index:
  "this < length (producer_objs s) \<Longrightarrow> length qs = length (queue_objs s) \<Longrightarrow>
   hot_step s (set_p_cur_index this i (s\<lparr>queue_objs := qs\<rparr>))"
  by (simp add: hot_step_def set_p_cur_index_def map_update_same)

lemma hot_step_set_consumer:
  "this < length (consumer_objs s) \<Longrightarrow> length qs = length (queue_objs s) \<Longrightarrow>
   hot_step s (set_consumer this i n (s\<lparr>queue_objs := qs\<rparr>))"
  by (simp add: hot_step_def set_consumer_def map_update_same)

lemma Push_hot_step: "Push this v s = Returned r s' \<Longrightarrow> hot_step s s'"
  using hot_step_set_p_cur_index[of this s "queue_objs s"]
  by (auto simp: Push_def Let_def hot_step_set_p_cur_index
      split: if_splits scan.splits)

lemma Push_idx_hot_step: "Push_idx this idx v s = Returned r s' \<Longrightarrow> hot_step s s'"
  by (auto simp: Push_idx_def Let_def hot_step_refl hot_step_queues
      split: if_splits option.splits)

lemma Pop_scan_hot_step:
  "\<not> length (consumer_objs s) \<le> this \<Longrightarrow> Pop_scan this s = Returned r s' \<Longrightarrow> hot_step s s'"
  using hot_step_set_consumer[of this s "queue_objs s"]
  by (auto simp: Pop_scan_def Let_def hot_step_set_consumer
      split: if_splits scan.splits prod.splits)

lemma Pop_hot_step: "Pop this s = Returned r s' \<Longrightarrow> hot_step s s'"
  by (auto simp: Pop_def Let_def hot_step_set_consumer intro: Pop_scan_hot_step
      split: if_splits option.splits prod.splits)

lemma matrix_inv_init: "matrix_inv (DispatchQueue maxp maxc n)"
  by (simp add: matrix_inv_def tables_ok_def reclaim_ok_def grid_def rows_sized_def wired_p_def
      wired_c_def paired_def unshared_def DispatchQueue_def kMaxProducers_def kMaxConsumers_def)

lemma RegisterConsumer_preserves:
  assumes "matrix_inv s" "RegisterConsumer s = Returned r s'"
  shows "matrix_inv s'"
proof (cases "consumer_count s < kMaxConsumers s")
  case True
  from RegisterConsumer_inv[OF assms(1) True] assms(2) show ?thesis by auto
next
  case False
  then show ?thesis using assms by (simp add: RegisterConsumer_def Let_def)
qed

lemma RegisterProducer_preserves:
  assumes "matrix_inv s" "RegisterProducer s = Returned r s'"
  shows "matrix_inv s'"
proof (cases "reclaimed_producers s = []")
  case False
  from RegisterProducer_reclaim[OF assms(1) False] assms(2) show ?thesis by auto
next
  case True
  show ?thesis
  proof (cases "producer_count s < kMaxProducers s")
    case True
    from RegisterProducer_fresh_inv[OF assms(1) \<open>reclaimed_producers s = []\<close> True] assms(2)
    show ?thesis by auto
  next
    case False
    then show ?thesis using assms \<open>reclaimed_producers s = []\<close>
      by (simp add: RegisterProducer_def Let_def)
  qed
qed

lemma UnregisterProducer_Returned:
  assumes "matrix_inv s" "UnregisterProducer a s = Returned u s'"
  shows "a < producer_count s \<and> is_registered (producer_objs s ! a)"
  using assms
  by (auto simp: UnregisterProducer_def Let_def matrix_inv_def tables_ok_def split: if_splits)

lemma UnregisterProducer_preserves:
  assumes "matrix_inv s" "UnregisterProducer a s = Returned u s'"
  shows "matrix_inv s'"
proof -
  from UnregisterProducer_Returned[OF assms] have "a < producer_count s"
    "is_registered (producer_objs s ! a)" by simp_all
  from UnregisterProducer_ok[OF assms(1) this] assms(2) show ?thesis by simp
qed

lemma reachable_inv: "reachable s \<Longrightarrow> matrix_inv s"
proof (induction rule: reachable.induct)
  case (init maxp maxc n)
  show ?case by (rule matrix_inv_init)
next
  case (register_consumer s r s')
  then show ?case by (blast intro: RegisterConsumer_preserves)
next
  case (register_producer s r s')
  then show ?case by (blast intro: RegisterProducer_preserves)
next
  case (unregister_producer s outq u s')
  then show ?case by (blast intro: UnregisterProducer_preserves)
next
  case (push s this v b s')
  then show ?case by (blast intro: hot_step_inv Push_hot_step)
next
  case (push_idx s this idx v b s')
  then show ?case by (blast intro: hot_step_inv Push_idx_hot_step)
next
  case (pop s this w s')
  then show ?case by (blast intro: hot_step_inv Pop_hot_step)
qed

subsection \<open>Rows of a reachable store\<close>

lemma wired_count_prefix:
  assumes "n \<le> length row" "\<forall>i<length row. (row ! i \<noteq> None) = (i < n)"
  shows "wired_count row = n"
proof -
  have a: "filter (\<lambda>e. e \<noteq> None) (take n row) = take n row"
    using assms by (auto simp: filter_id_conv in_set_conv_nth)
  have b: "filter (\<lambda>e. e \<noteq> None) (drop n row) = []"
  proof -
    have "row ! (n + i) = None" if "i < length row - n" for i
      using assms(2)[rule_format, of "n + i"] that by simp
    then show ?thesis by (auto simp: filter_empty_conv in_set_conv_nth)
  qed
  have "wired_count row = length (filter (\<lambda>e. e \<noteq> None) (take n row @ drop n row))"
    by (simp add: wired_count_def)
  also have "\<dots> = n" using a b assms(1) by (simp del: append_take_drop_id)
  finally show ?thesis .
qed

lemma inv_rows:
  assumes inv: "matrix_inv s"
  shows "p < producer_count s \<Longrightarrow> producer_row s p = p_row s p"
    and "c < consumer_count s \<Longrightarrow> consumer_row s c = c_row s c"
  using assms matrix_inv_bounds[OF inv]
  by (simp_all add: matrix_inv_def tables_ok_def producer_row_def consumer_row_def p_row_def c_row_def)

lemma inv_producer_row:
  assumes inv: "matrix_inv s" and p: "p < producer_count s"
  shows "length (producer_row s p) = kMaxConsumers s"
    and "i < kMaxConsumers s \<Longrightarrow> (producer_row s p ! i \<noteq> None) = (i < consumer_count s)"
proof -
  from inv have t: "tables_ok s" and g: "grid s ({..<producer_count s} \<times> {..<consumer_count s})"
    by (simp_all add: matrix_inv_def)
  from g have rs: "rows_sized s" and wp: "wired_p s ({..<producer_count s} \<times> {..<consumer_count s})"
    by (simp_all add: grid_def)
  have lp: "p < length (producer_objs s)" using t p by (simp add: tables_ok_def)
  show "length (producer_row s p) = kMaxConsumers s"
    using rows_sizedD(3)[OF rs lp] inv_rows(1)[OF inv p] by simp
  show "(producer_row s p ! i \<noteq> None) = (i < consumer_count s)" if "i < kMaxConsumers s"
    using wired_pD[OF wp lp that] inv_rows(1)[OF inv p] p by simp
qed

lemma inv_consumer_row:
  assumes inv: "matrix_inv s" and c: "c < consumer_count s"
  shows "length (consumer_row s c) = kMaxProducers s"
    and "i < kMaxProducers s \<Longrightarrow> (consumer_row s c ! i \<noteq> None) = (i < producer_count s)"
proof -
  from inv have t: "tables_ok s" and g: "grid s ({..<producer_count s} \<times> {..<consumer_count s})"
    by (simp_all add: matrix_inv_def)
  from g have rs: "rows_sized s" and wc: "wired_c s ({..<producer_count s} \<times> {..<consumer_count s})"
    by (simp_all add: grid_def)
  have lc: "c < length (consumer_objs s)" using t c by (simp add: tables_ok_def)
  show "length (consumer_row s c) = kMaxProducers s"
    using rows_sizedD(4)[OF rs lc] inv_rows(2)[OF inv c] by simp
  show "(consumer_row s c ! i \<noteq> None) = (i < producer_count s)" if "i < kMaxProducers s"
    using wired_cD[OF wc lc that] inv_rows(2)[OF inv c] c by simp
qed

lemma inv_channel:
  assumes inv: "matrix_inv s" and p: "p < producer_count s" and c: "c < consumer_count s"
  shows "\<exists>q. producer_row s p ! c = Some q \<and> consumer_row s c ! p = Some q \<and>
             (\<forall>q'. links s q' p c \<longleftrightarrow> q' = q)"
proof -
  let ?D = "{..<producer_count s} \<times> {..<consumer_count s}"
  from inv have g: "grid s ?D" by (simp add: matrix_inv_def)
  from g have pa: "paired s ?D" and un: "unshared s ?D" and wp: "wired_p s ?D"
    and wc: "wired_c s ?D" and rs: "rows_sized s"
    by (simp_all add: grid_def)
  note pk = matrix_inv_bounds(1)[OF inv] and ck = matrix_inv_bounds(2)[OF inv]
  have d: "(p, c) \<in> ?D" using p c by simp
  note x = pairedD[OF pa d]
  have "producer_row s p ! c \<noteq> None"
    using inv_producer_row(2)[OF inv p, of c] c ck by simp
  then obtain q where q: "producer_row s p ! c = Some q" by auto
  have pq: "p_row s p ! c = Some q" using q inv_rows(1)[OF inv p] by simp
  have cq: "c_row s c ! p = Some q" using pq x(3) by simp
  have ql: "q < length (queue_objs s)" using x(4)[OF pq] .
  have l1: "links s q p c"
    unfolding links_def
  proof (intro conjI)
    show "q < length (queue_objs s)" by (rule ql)
    have "c < length (producer_row s p)" using inv_producer_row(1)[OF inv p] c ck by simp
    from nth_mem[OF this] show "Some q \<in> set (producer_row s p)" using q by simp
    have "p < length (consumer_row s c)" using inv_consumer_row(1)[OF inv c] p pk by simp
    from nth_mem[OF this] show "Some q \<in> set (consumer_row s c)"
      using cq inv_rows(2)[OF inv c] by simp
  qed
  have l2: "q' = q" if "links s q' p c" for q'
  proof -
    from that have "Some q' \<in> set (producer_row s p)" "Some q' \<in> set (consumer_row s c)"
      by (simp_all add: links_def)
    then have "\<exists>i<length (producer_row s p). producer_row s p ! i = Some q'"
      and "\<exists>i<length (consumer_row s c). consumer_row s c ! i = Some q'"
      by (simp_all only: in_set_conv_nth)
    then obtain c1 p1 where c1: "c1 < kMaxConsumers s" "producer_row s p ! c1 = Some q'"
      and p1: "p1 < kMaxProducers s" "consumer_row s c ! p1 = Some q'"
      using inv_producer_row(1)[OF inv p] inv_consumer_row(1)[OF inv c]
      by auto
    have "c1 < consumer_count s" using inv_producer_row(2)[OF inv p c1(1)] c1(2) by simp
    then have d1: "(p, c1) \<in> ?D" using p by simp
    have "p1 < producer_count s" using inv_consumer_row(2)[OF inv c p1(1)] p1(2) by simp
    then have d2: "(p1, c) \<in> ?D" using c by simp
    have e1: "p_row s p ! c1 = Some q'" using c1(2) inv_rows(1)[OF inv p] by simp
    have "c_row s c ! p1 = Some q'" using p1(2) inv_rows(2)[OF inv c] by simp
    then have e2: "p_row s p1 ! c = Some q'" using pairedD(3)[OF pa d2] by simp
    from unsharedD[OF un d1 d2 e1 e2] have "c1 = c" by simp
    then show ?thesis using e1 pq by simp
  qed
  have "\<forall>q'. links s q' p c \<longleftrightarrow> q' = q" using l1 l2 by blast
  moreover have "consumer_row s c ! p = Some q" using cq inv_rows(2)[OF inv c] by simp
  ultimately show ?thesis using q by blast
qed

lemma reachable_after:
  assumes r: "reachable s"
  shows "reachable (after RegisterProducer s)" and "reachable (after RegisterConsumer s)"
    and "reachable (after (UnregisterProducer a) s)" and "reachable (after (Push a v) s)"
    and "reachable (after (Push_idx a i v) s)" and "reachable (after (Pop a) s)"
proof -
  show "reachable (after RegisterProducer s)"
    using r reachable.register_producer[OF r]
    by (cases "RegisterProducer s") (simp_all add: after_def)
  show "reachable (after RegisterConsumer s)"
    using r reachable.register_consumer[OF r]
    by (cases "RegisterConsumer s") (simp_all add: after_def)
  show "reachable (after (UnregisterProducer a) s)"
    using r reachable.unregister_producer[OF r]
    by (cases "UnregisterProducer a s") (simp_all add: after_def)
  show "reachable (after (Push a v) s)"
    using r reachable.push[OF r]
    by (cases "Push a v s") (simp_all add: after_def)
  show "reachable (after (Push_idx a i v) s)"
    using r reachable.push_idx[OF r]
    by (cases "Push_idx a i v s") (simp_all add: after_def)
  show "reachable (after (Pop a) s)"
    using r reachable.pop[OF r]
    by (cases "Pop a s") (simp_all add: after_def)
qed

subsection \<open>Concrete stores\<close>

lemma replicate_numeral: "replicate (numeral k) x = x # replicate (pred_numeral k) x"
  by (simp add: numeral_eq_Suc)

lemmas model_defs =
  RegisterConsumer_def RegisterProducer_def UnregisterProducer_def DispatchQueue_def
  kMaxConsumers_def kMaxProducers_def Consumer_new_def Producer_new_def link_queue_def
  Queue_new_def Queue_Push_def Queue_Pop_def Push_def Push_idx_def Pop_def Pop_scan_def
  set_p_cur_index_def set_consumer_def size_inc_def minus_one_U_def kMaxStickyReadCnt_def
  RegisterProducer_loop.simps RegisterConsumer_loop.simps scan_tail.simps scan_head.simps
  after_def Let_def replicate_numeral

lemma demo22_eq:
  "demo22 =
     \<lparr>qlen = 1, producers = [Some 0, Some 1], consumers = [Some 0, Some 1],
      producer_count = 2, consumer_count = 2, reclaimed_producers = [],
      producer_objs =
        [\<lparr>producer_index = 0, is_registered = True, p_cur_index = 4294967295,
          p_queue_vec = [Some 0, Some 1]\<rparr>,
         \<lparr>producer_index = 1, is_registered = True, p_cur_index = 4294967295,
          p_queue_vec = [Some 2, Some 3]\<rparr>],
      consumer_objs =
        [\<lparr>consumer_index = 0, c_cur_index = 4294967295, cur_index_read_cnt = 0,
          c_queue_vec = [Some 0, Some 2]\<rparr>,
         \<lparr>consumer_index = 1, c_cur_index = 4294967295, cur_index_read_cnt = 0,
          c_queue_vec = [Some 1, Some 3]\<rparr>],
      queue_objs = replicate 4 \<lparr>q_capacity = 1, q_items = []\<rparr>\<rparr>"
  by (simp add: demo22_def model_defs)

lemma demo22_reachable: "reachable demo22"
  unfolding demo22_def by (intro reachable_after reachable.init)

subsection \<open>The free-list\<close>

lemma unregister_all_ok:
  assumes "matrix_inv s" "distinct hs"
    "\<forall>h\<in>set hs. h < producer_count s \<and> is_registered (producer_objs s ! h)"
  shows "\<exists>s1. unregister_all hs s = Returned () s1 \<and> matrix_inv s1 \<and>
           reclaimed_producers s1 = reclaimed_producers s @ hs"
  using assms
proof (induction hs arbitrary: s)
  case Nil
  then show ?case by simp
next
  case (Cons h hs)
  let ?t = "set_registered h False (reclaimed_producers s @ [h]) s"
  from Cons.prems have h: "h < producer_count s" "is_registered (producer_objs s ! h)"
    by simp_all
  note u = UnregisterProducer_ok[OF Cons.prems(1) h]
  have lp: "length (producer_objs s) = producer_count s"
    using Cons.prems(1) by (simp add: matrix_inv_def tables_ok_def)
  have "\<forall>k\<in>set hs. k < producer_count ?t \<and> is_registered (producer_objs ?t ! k)"
    using Cons.prems(2,3) lp by (auto simp: set_registered_obj)
  from Cons.IH[OF u(2) _ this] Cons.prems(2)
  obtain s1 where "unregister_all hs ?t = Returned () s1" "matrix_inv s1"
    "reclaimed_producers s1 = reclaimed_producers ?t @ hs"
    by auto
  then show ?case using u(1) by simp
qed

lemma register_n_ok:
  assumes "matrix_inv s" "reclaimed_producers s = rs0 @ ks"
  shows "\<exists>s2. register_n (length ks) s = Returned (map Some (rev ks)) s2 \<and> matrix_inv s2 \<and>
           reclaimed_producers s2 = rs0"
  using assms
proof (induction ks arbitrary: s rule: rev_induct)
  case Nil
  then show ?case by simp
next
  case (snoc k ks)
  let ?t = "set_registered k True (rs0 @ ks) s"
  have ne: "reclaimed_producers s \<noteq> []" and l: "last (reclaimed_producers s) = k"
    and b: "butlast (reclaimed_producers s) = rs0 @ ks"
    using snoc.prems(2) by (simp_all add: butlast_append)
  note r = RegisterProducer_reclaim[OF snoc.prems(1) ne, unfolded l b]
  from snoc.IH[OF r(2)] obtain s2
    where "register_n (length ks) ?t = Returned (map Some (rev ks)) s2" "matrix_inv s2"
      "reclaimed_producers s2 = rs0"
    by auto
  then show ?case using r(1) by simp
qed

lemma demo22_unregistered_reachable: "reachable demo22_unregistered"
  unfolding demo22_unregistered_def by (intro reachable_after demo22_reachable)

lemma demo22_unregistered_eq:
  "demo22_unregistered =
     demo22\<lparr>reclaimed_producers := [0, 1],
            producer_objs := map (\<lambda>pr. pr\<lparr>is_registered := False\<rparr>) (producer_objs demo22)\<rparr>"
  by (simp add: demo22_unregistered_def demo22_eq model_defs)

subsection \<open>Usage errors\<close>

lemma Push_never_throws_registered:
  "is_registered (producer_objs s ! this) \<Longrightarrow> Push this v s \<noteq> Threw e s'"
  by (auto simp: Push_def Let_def split: scan.splits)

lemma Push_idx_never_throws_registered:
  "is_registered (producer_objs s ! this) \<Longrightarrow> Push_idx this idx v s \<noteq> Threw e s'"
  by (auto simp: Push_idx_def Let_def split: option.splits)

subsection \<open>Polling\<close>

lemma int_inc_plain: "- (2 ^ 31) \<le> x \<Longrightarrow> x + 1 < 2 ^ 31 \<Longrightarrow> int_inc x = x + 1"
  by (simp add: int_inc_def)

lemma PopWait_loop_hit:
  assumes "attempt_store env this k s = Some t" "Pop this t = Returned (Some v) t'"
    "0 \<le> timeout \<longrightarrow> 0 \<le> sm \<and> sm + int k \<le> timeout \<and> timeout < 2 ^ 31"
  shows "PopWait_loop (Suc k) env this timeout sm s = Some (Returned (Some v) t')"
  using assms
proof (induction k arbitrary: env s sm)
  case 0
  then show ?case by simp
next
  case (Suc k)
  from Suc.prems(1) obtain s1 where p: "Pop this s = Returned None s1"
    and a: "attempt_store (\<lambda>n. env (Suc n)) this k (env 0 s1) = Some t"
    by (auto split: outcome.splits option.splits)
  have go: "\<not> (0 \<le> timeout \<and> timeout \<le> sm)" using Suc.prems(3) by auto
  have "0 \<le> timeout \<longrightarrow> 0 \<le> int_inc sm \<and> int_inc sm + int k \<le> timeout \<and> timeout < 2 ^ 31"
  proof
    assume "0 \<le> timeout"
    with Suc.prems(3) have b: "0 \<le> sm" "sm + int (Suc k) \<le> timeout" "timeout < 2 ^ 31" by auto
    then have "int_inc sm = sm + 1" by (intro int_inc_plain) auto
    then show "0 \<le> int_inc sm \<and> int_inc sm + int k \<le> timeout \<and> timeout < 2 ^ 31"
      using b by simp
  qed
  from Suc.IH[OF a Suc.prems(2) this]
  show ?case using p go by simp
qed

lemma PopWait_loop_timeout:
  assumes "attempt_store env this k s = Some t" "Pop this t = Returned None t'"
    "0 \<le> sm" "sm + int k = timeout" "timeout < 2 ^ 31"
  shows "PopWait_loop (Suc k) env this timeout sm s = Some (Returned None t')"
  using assms
proof (induction k arbitrary: env s sm)
  case 0
  then show ?case by simp
next
  case (Suc k)
  from Suc.prems(1) obtain s1 where p: "Pop this s = Returned None s1"
    and a: "attempt_store (\<lambda>n. env (Suc n)) this k (env 0 s1) = Some t"
    by (auto split: outcome.splits option.splits)
  have go: "\<not> timeout \<le> sm" using Suc.prems(4) by auto
  have i: "int_inc sm = sm + 1" using Suc.prems(3,4,5) by (intro int_inc_plain) auto
  have "PopWait_loop (Suc k) (\<lambda>n. env (Suc n)) this timeout (int_inc sm) (env 0 s1) =
          Some (Returned None t')"
    using Suc.prems(3,4,5) by (intro Suc.IH[OF a Suc.prems(2)]) (simp_all add: i)
  then show ?case using p go by simp
qed

lemma PopWait_loop_returns:
  assumes "0 \<le> sm" "sm + int k = timeout" "timeout < 2 ^ 31"
  shows "PopWait_loop (Suc k) env this timeout sm (s :: 'a state) \<noteq> None"
  using assms
proof (induction k arbitrary: env s sm)
  case 0
  then show ?case by (simp split: outcome.splits option.splits)
next
  case (Suc k)
  have i: "int_inc sm = sm + 1" using Suc.prems by (intro int_inc_plain) auto
  have j: "0 \<le> int_inc sm" "int_inc sm + int k = timeout"
    using Suc.prems by (simp_all add: i)
  have "PopWait_loop (Suc k) env' this timeout (int_inc sm) s' \<noteq> None"
    for env' and s' :: "'a state"
    by (rule Suc.IH[OF j Suc.prems(3)])
  then show ?case
    by (subst PopWait_loop.simps)
       (simp del: PopWait_loop.simps split: outcome.splits option.splits)
qed

lemma PopWait_loop_forever:
  assumes "timeout < 0"
  shows "PopWait_loop fuel env this timeout sm s \<noteq> Some (Returned None t')"
  using assms
  by (induction fuel arbitrary: env sm s) (auto split: outcome.splits option.splits)

lemma PopWait_loop_mono:
  "PopWait_loop fuel env this timeout sm s = Some r \<Longrightarrow>
   PopWait_loop (fuel + extra) env this timeout sm s = Some r"
  by (induction fuel arbitrary: env sm s) (auto split: outcome.splits option.splits if_splits)

lemma demo11_reachable: "reachable demo11"
  unfolding demo11_def by (intro reachable_after reachable.init)

lemma demo11_eq:
  "demo11 =
     \<lparr>qlen = 1, producers = [Some 0, None], consumers = [Some 0, None],
      producer_count = 1, consumer_count = 1, reclaimed_producers = [],
      producer_objs =
        [\<lparr>producer_index = 0, is_registered = True, p_cur_index = 4294967295,
          p_queue_vec = [Some 0, None]\<rparr>],
      consumer_objs =
        [\<lparr>consumer_index = 0, c_cur_index = 4294967295, cur_index_read_cnt = 0,
          c_queue_vec = [Some 0, None]\<rparr>],
      queue_objs = [\<lparr>q_capacity = 1, q_items = []\<rparr>]\<rparr>"
  by (simp add: demo11_def model_defs)

lemma attempt_store_numeral:
  "attempt_store env this (numeral k) s =
     (case Pop this s of
        Returned None s' \<Rightarrow> attempt_store (\<lambda>n. env (Suc n)) this (pred_numeral k) (env 0 s')
      | _ \<Rightarrow> None)"
  by (simp add: numeral_eq_Suc)

lemma demo11_idle_eq:
  "demo11_idle =
     demo11\<lparr>consumer_objs :=
        [\<lparr>consumer_index = 0, c_cur_index = 1, cur_index_read_cnt = 0,
          c_queue_vec = [Some 0, None]\<rparr>]\<rparr>"
  by (simp add: demo11_idle_def demo11_eq model_defs)

lemma demo11_fed_eq:
  "demo11_fed =
     demo11_idle\<lparr>producer_objs :=
        [\<lparr>producer_index = 0, is_registered = True, p_cur_index = 0,
          p_queue_vec = [Some 0, None]\<rparr>],
        queue_objs := [\<lparr>q_capacity = 1, q_items = [7]\<rparr>]\<rparr>"
  by (simp add: demo11_fed_def demo11_idle_eq demo11_eq model_defs)

lemma demo11_served_eq:
  "demo11_served =
     demo11_fed\<lparr>consumer_objs :=
        [\<lparr>consumer_index = 0, c_cur_index = 0, cur_index_read_cnt = 1,
          c_queue_vec = [Some 0, None]\<rparr>],
        queue_objs := [\<lparr>q_capacity = 1, q_items = []\<rparr>]\<rparr>"
  by (simp add: demo11_served_def demo11_fed_eq demo11_idle_eq demo11_eq model_defs)

lemma demo11_calls:
  "Pop 0 demo11 = Returned None demo11_idle"
  "Pop 0 demo11_idle = Returned None demo11_idle"
  "Push 0 7 demo11_idle = Returned True demo11_fed"
  "Pop 0 demo11_fed = Returned (Some 7) demo11_served"
  by (simp_all add: demo11_served_eq demo11_fed_eq demo11_idle_eq demo11_eq model_defs)

subsection \<open>The sticky counter\<close>

lemma hot_step_consumers:
  "hot_step s s' \<Longrightarrow> length (consumer_objs s') = length (consumer_objs s)"
  by (rule hot_step_objs(2))

lemma sticky_hit_Pop:
  assumes "this < length (consumer_objs s)" "sticky_hit this s"
  shows "\<exists>v s'. Pop this s = Returned (Some v) s' \<and> this < length (consumer_objs s') \<and>
           cur_index_read_cnt (consumer_objs s' ! this) =
             cur_index_read_cnt (consumer_objs s ! this) + 1 \<and>
           c_cur_index (consumer_objs s' ! this) = c_cur_index (consumer_objs s ! this)"
proof -
  let ?co = "consumer_objs s ! this"
  from assms(2) obtain q where c: "cur_index_read_cnt ?co \<noteq> 0"
    "cur_index_read_cnt ?co < kMaxStickyReadCnt" "c_cur_index ?co < length (c_queue_vec ?co)"
    "c_queue_vec ?co ! c_cur_index ?co = Some q" "q < length (queue_objs s)"
    "Queue_Pop (queue_objs s ! q) \<noteq> None"
    by (auto simp: sticky_hit_def Let_def split: option.splits)
  from c(6) obtain v q' where p: "Queue_Pop (queue_objs s ! q) = Some (v, q')" by auto
  have "size_inc (cur_index_read_cnt ?co) = cur_index_read_cnt ?co + 1"
    using c(2) by (simp add: size_inc_def kMaxStickyReadCnt_def)
  then show ?thesis
    using assms(1) c p by (simp add: Pop_def Let_def set_consumer_def)
qed

lemma sticky_run_bound:
  assumes "this < length (consumer_objs s)" "sticky_run n this s"
  shows "n \<le> 32 - cur_index_read_cnt (consumer_objs s ! this)"
  using assms
proof (induction n arbitrary: s)
  case 0
  then show ?case by simp
next
  case (Suc n)
  from Suc.prems(2) have h: "sticky_hit this s" by simp
  from sticky_hit_Pop[OF Suc.prems(1) h] obtain v s'
    where p: "Pop this s = Returned (Some v) s'" "this < length (consumer_objs s')"
      "cur_index_read_cnt (consumer_objs s' ! this) =
         cur_index_read_cnt (consumer_objs s ! this) + 1"
    by blast
  have "sticky_run n this s'" using Suc.prems(2) p(1) by simp
  from Suc.IH[OF p(2) this] have "n \<le> 32 - (cur_index_read_cnt (consumer_objs s ! this) + 1)"
    using p(3) by simp
  moreover have "cur_index_read_cnt (consumer_objs s ! this) < 32"
    using h by (simp add: sticky_hit_def Let_def kMaxStickyReadCnt_def)
  ultimately show ?case by simp
qed

lemma Pop_scan_counter:
  assumes "this < length (consumer_objs s)" "Pop_scan this s = Returned w s'"
  shows "cur_index_read_cnt (consumer_objs s' ! this) = (if w = None then 0 else 1)"
  using assms
  by (auto simp: Pop_scan_def Let_def set_consumer_def split: scan.splits prod.splits)

lemma sticky_run_numeral:
  "sticky_run (numeral k) this s =
     (sticky_hit this s \<and>
      (case Pop this s of Returned w s' \<Rightarrow> sticky_run (pred_numeral k) this s' | _ \<Rightarrow> False))"
  by (simp add: numeral_eq_Suc)

subsection \<open>What the scanning loops compute\<close>

lemma find_append_first:
  "find P (xs @ ys) = (case find P xs of Some x \<Rightarrow> Some x | None \<Rightarrow> find P ys)"
  by (induction xs) auto

lemma scan_tail_hit:
  assumes "find (answers attempt heap vec) (takeWhile (wired_at vec) [i ..< kmax]) = Some j"
    "\<forall>k q. k < length vec \<longrightarrow> vec ! k = Some q \<longrightarrow> q < length heap"
  shows "\<exists>q r. vec ! j = Some q \<and> attempt (heap ! q) = Some r \<and>
           scan_tail kmax vec heap attempt i = Hit j q r"
  using assms
proof (induction kmax vec heap attempt i rule: scan_tail.induct)
  case (1 kmax vec heap attempt i)
  show ?case
  proof (cases "i < kmax")
    case False
    then show ?thesis using "1.prems"(1) by simp
  next
    case True
    then have u: "[i ..< kmax] = i # [i + 1 ..< kmax]" by (simp add: upt_conv_Cons)
    have w: "wired_at vec i"
      using "1.prems"(1) unfolding u by (auto split: if_splits)
    then obtain q where q: "i < length vec" "vec ! i = Some q" by (auto simp: wired_at_def)
    have ql: "q < length heap" using "1.prems"(2) q by blast
    have ai: "answers attempt heap vec i = (attempt (heap ! q) \<noteq> None)"
      using q by (simp add: answers_def)
    show ?thesis
    proof (cases "attempt (heap ! q)")
      case (Some r)
      then have "j = i" using "1.prems"(1) w unfolding u by (simp add: ai)
      then show ?thesis using True q ql Some by (subst scan_tail.simps) simp
    next
      case None
      then have "find (answers attempt heap vec) (takeWhile (wired_at vec) [i + 1 ..< kmax]) = Some j"
        using "1.prems"(1) w unfolding u by (simp add: ai)
      from "1.IH"[OF True _ q(2) _ None this "1.prems"(2)] q ql
      obtain q' r where "vec ! j = Some q'" "attempt (heap ! q') = Some r"
        "scan_tail kmax vec heap attempt (i + 1) = Hit j q' r"
        by auto
      then show ?thesis using True q ql None by (subst scan_tail.simps) simp
    qed
  qed
qed

lemma scan_tail_miss:
  assumes "find (answers attempt heap vec) (takeWhile (wired_at vec) [i ..< kmax]) = None"
    "\<forall>k q. k < length vec \<longrightarrow> vec ! k = Some q \<longrightarrow> q < length heap" "kmax \<le> length vec"
  shows "\<exists>j. scan_tail kmax vec heap attempt i = Miss j"
  using assms
proof (induction kmax vec heap attempt i rule: scan_tail.induct)
  case (1 kmax vec heap attempt i)
  show ?case
  proof (cases "i < kmax")
    case False
    then show ?thesis by (subst scan_tail.simps) simp
  next
    case True
    then have u: "[i ..< kmax] = i # [i + 1 ..< kmax]" by (simp add: upt_conv_Cons)
    have il: "i < length vec" using True "1.prems"(3) by simp
    show ?thesis
    proof (cases "vec ! i")
      case None
      then show ?thesis using True il by (subst scan_tail.simps) simp
    next
      case (Some q)
      have ql: "q < length heap" using "1.prems"(2) il Some by blast
      have w: "wired_at vec i" using il Some by (simp add: wired_at_def)
      have ai: "answers attempt heap vec i = (attempt (heap ! q) \<noteq> None)"
        using Some by (simp add: answers_def)
      have n: "attempt (heap ! q) = None"
        using "1.prems"(1) w unfolding u by (auto simp: ai split: if_splits)
      have "find (answers attempt heap vec) (takeWhile (wired_at vec) [i + 1 ..< kmax]) = None"
        using "1.prems"(1) w n unfolding u by (simp add: ai)
      from "1.IH"[OF True _ Some _ n this "1.prems"(2,3)] il ql
      obtain j where "scan_tail kmax vec heap attempt (i + 1) = Miss j" by auto
      then show ?thesis using True il Some ql n by (subst scan_tail.simps) simp
    qed
  qed
qed

lemma scan_head_hit:
  assumes "find (answers attempt heap vec) (takeWhile (wired_at vec) [i ..< last_index + 1]) = Some j"
    "\<forall>k q. k < length vec \<longrightarrow> vec ! k = Some q \<longrightarrow> q < length heap"
  shows "\<exists>q r. vec ! j = Some q \<and> attempt (heap ! q) = Some r \<and>
           scan_head vec heap attempt last_index i = Hit j q r"
  using assms
proof (induction vec heap attempt last_index i rule: scan_head.induct)
  case (1 vec heap attempt last_index i)
  show ?case
  proof (cases "i \<le> last_index")
    case False
    then show ?thesis using "1.prems"(1) by simp
  next
    case True
    then have u: "[i ..< last_index + 1] = i # [i + 1 ..< last_index + 1]"
      by (simp add: upt_conv_Cons)
    have w: "wired_at vec i"
      using "1.prems"(1) unfolding u by (auto split: if_splits)
    then obtain q where q: "i < length vec" "vec ! i = Some q" by (auto simp: wired_at_def)
    have ql: "q < length heap" using "1.prems"(2) q by blast
    have ai: "answers attempt heap vec i = (attempt (heap ! q) \<noteq> None)"
      using q by (simp add: answers_def)
    show ?thesis
    proof (cases "attempt (heap ! q)")
      case (Some r)
      then have "j = i" using "1.prems"(1) w unfolding u by (simp add: ai)
      then show ?thesis using True q ql Some by (subst scan_head.simps) simp
    next
      case None
      then have "find (answers attempt heap vec)
          (takeWhile (wired_at vec) [i + 1 ..< last_index + 1]) = Some j"
        using "1.prems"(1) w unfolding u by (simp add: ai)
      from "1.IH"[OF True _ q(2) _ None this "1.prems"(2)] q ql
      obtain q' r where "vec ! j = Some q'" "attempt (heap ! q') = Some r"
        "scan_head vec heap attempt last_index (i + 1) = Hit j q' r"
        by auto
      then show ?thesis using True q ql None by (subst scan_head.simps) simp
    qed
  qed
qed

lemma Queue_Push_Some:
  "Queue_Push v q = Some q' \<Longrightarrow> q' = q\<lparr>q_items := q_items q @ [v]\<rparr>"
  by (auto simp: Queue_Push_def split: if_splits)

lemma demo22_pushed_eq:
  "demo22_pushed =
     demo22\<lparr>producer_objs :=
        [\<lparr>producer_index = 0, is_registered = True, p_cur_index = 0,
          p_queue_vec = [Some 0, Some 1]\<rparr>,
         \<lparr>producer_index = 1, is_registered = True, p_cur_index = 4294967295,
          p_queue_vec = [Some 2, Some 3]\<rparr>],
       queue_objs :=
        [\<lparr>q_capacity = 1, q_items = [7]\<rparr>, \<lparr>q_capacity = 1, q_items = []\<rparr>,
         \<lparr>q_capacity = 1, q_items = []\<rparr>, \<lparr>q_capacity = 1, q_items = []\<rparr>]\<rparr>"
  by (simp add: demo22_pushed_def demo22_eq model_defs)

subsection \<open>Channels outside a row\<close>

lemma scan_tail_frame:
  assumes "Some q \<notin> set vec"
  shows "scan_tail kmax vec (heap[q := x]) attempt i = scan_tail kmax vec heap attempt i"
  using assms
proof (induction kmax vec heap attempt i rule: scan_tail.induct)
  case (1 kmax vec heap attempt i)
  show ?case
  proof (cases "i < kmax \<and> i < length vec")
    case False
    then show ?thesis
      by (subst scan_tail.simps, subst (2) scan_tail.simps) auto
  next
    case True
    show ?thesis
    proof (cases "vec ! i")
      case None
      then show ?thesis using True
        by (subst scan_tail.simps, subst (2) scan_tail.simps) simp
    next
      case (Some qptr)
      have ne: "qptr \<noteq> q" using "1.prems" True Some nth_mem[of i vec] by auto
      show ?thesis
      proof (cases "qptr < length heap")
        case False
        then show ?thesis using True Some
          by (subst scan_tail.simps, subst (2) scan_tail.simps) simp
      next
        case l: True
        show ?thesis
        proof (cases "attempt (heap ! qptr)")
          case None
          from "1.IH"[OF _ _ Some _ None "1.prems"] True l
          have "scan_tail kmax vec (heap[q := x]) attempt (i + 1) =
                  scan_tail kmax vec heap attempt (i + 1)"
            by simp
          then show ?thesis using True Some l None ne
            by (subst scan_tail.simps, subst (2) scan_tail.simps) simp
        next
          case (Some r)
          then show ?thesis using True \<open>vec ! i = Some qptr\<close> l ne
            by (subst scan_tail.simps, subst (2) scan_tail.simps) simp
        qed
      qed
    qed
  qed
qed

lemma scan_head_frame:
  assumes "Some q \<notin> set vec"
  shows "scan_head vec (heap[q := x]) attempt last_index i = scan_head vec heap attempt last_index i"
  using assms
proof (induction vec heap attempt last_index i rule: scan_head.induct)
  case (1 vec heap attempt last_index i)
  show ?case
  proof (cases "i \<le> last_index \<and> i < length vec")
    case False
    then show ?thesis
      by (subst scan_head.simps, subst (2) scan_head.simps) auto
  next
    case True
    show ?thesis
    proof (cases "vec ! i")
      case None
      then show ?thesis using True
        by (subst scan_head.simps, subst (2) scan_head.simps) simp
    next
      case (Some qptr)
      have ne: "qptr \<noteq> q" using "1.prems" True Some nth_mem[of i vec] by auto
      show ?thesis
      proof (cases "qptr < length heap")
        case False
        then show ?thesis using True Some
          by (subst scan_head.simps, subst (2) scan_head.simps) simp
      next
        case l: True
        show ?thesis
        proof (cases "attempt (heap ! qptr)")
          case None
          from "1.IH"[OF _ _ Some _ None "1.prems"] True l
          have "scan_head vec (heap[q := x]) attempt last_index (i + 1) =
                  scan_head vec heap attempt last_index (i + 1)"
            by simp
          then show ?thesis using True Some l None ne
            by (subst scan_head.simps, subst (2) scan_head.simps) simp
        next
          case (Some r)
          then show ?thesis using True \<open>vec ! i = Some qptr\<close> l ne
            by (subst scan_head.simps, subst (2) scan_head.simps) simp
        qed
      qed
    qed
  qed
qed

lemma scan_tail_Hit_at:
  "scan_tail kmax vec heap attempt i = Hit j qptr r \<Longrightarrow> j < length vec \<and> vec ! j = Some qptr"
proof (induction kmax vec heap attempt i rule: scan_tail.induct)
  case (1 kmax vec heap attempt i)
  from "1.prems" show ?case
    by (subst (asm) scan_tail.simps) (auto split: if_splits option.splits dest: "1.IH")
qed

lemma scan_head_Hit_at:
  "scan_head vec heap attempt last_index i = Hit j qptr r \<Longrightarrow>
   j < length vec \<and> vec ! j = Some qptr"
proof (induction vec heap attempt last_index i rule: scan_head.induct)
  case (1 vec heap attempt last_index i)
  from "1.prems" show ?case
    by (subst (asm) scan_head.simps) (auto split: if_splits option.splits dest: "1.IH")
qed

lemma Hit_in_row:
  "scan_tail kmax vec heap attempt i = Hit j qptr r \<Longrightarrow> Some qptr \<in> set vec"
  "scan_head vec heap attempt last_index i = Hit j qptr r \<Longrightarrow> Some qptr \<in> set vec"
  using scan_tail_Hit_at[of kmax vec heap attempt i j qptr r]
    scan_head_Hit_at[of vec heap attempt last_index i j qptr r]
  by (metis nth_mem)+

lemma with_channel_fields [simp]:
  "consumer_objs (with_channel q x s) = consumer_objs s"
  "producer_objs (with_channel q x s) = producer_objs s"
  "kMaxProducers (with_channel q x s) = kMaxProducers s"
  "kMaxConsumers (with_channel q x s) = kMaxConsumers s"
  "queue_objs (with_channel q x s) = (queue_objs s)[q := x]"
  by (simp_all add: with_channel_def kMaxProducers_def kMaxConsumers_def)

lemma with_channel_commute:
  "q \<noteq> q' \<Longrightarrow>
   set_consumer this i n (with_channel q x s\<lparr>queue_objs := (queue_objs s)[q := x, q' := y]\<rparr>) =
   with_channel q x (set_consumer this i n (s\<lparr>queue_objs := (queue_objs s)[q' := y]\<rparr>))"
  "set_consumer this i n (with_channel q x s) = with_channel q x (set_consumer this i n s)"
  by (simp_all add: with_channel_def set_consumer_def list_update_swap)

lemma Pop_scan_frame:
  assumes "Some q \<notin> set (c_queue_vec (consumer_objs s ! this))"
  shows "Pop_scan this (with_channel q x s) = map_store (with_channel q x) (Pop_scan this s)"
proof -
  let ?co = "consumer_objs s ! this"
  let ?t = "scan_tail (kMaxProducers s) (c_queue_vec ?co) (queue_objs s) Queue_Pop
              (size_inc (c_cur_index ?co))"
  let ?h = "scan_head (c_queue_vec ?co) (queue_objs s) Queue_Pop (c_cur_index ?co) 0"
  have ne: "qptr \<noteq> q" if "?t = Hit j qptr r \<or> ?h = Hit j qptr r" for j qptr r
    using that assms Hit_in_row by fastforce
  show ?thesis
  proof (cases ?t)
    case (Hit j qptr r)
    obtain v q' where r: "r = (v, q')" by (cases r)
    show ?thesis using Hit ne[of j qptr r]
      by (simp add: Pop_scan_def Let_def scan_tail_frame[OF assms] r with_channel_commute)
  next
    case (Bad f)
    then show ?thesis by (simp add: Pop_scan_def Let_def scan_tail_frame[OF assms])
  next
    case (Miss m)
    show ?thesis
    proof (cases ?h)
      case (Hit j qptr r)
      obtain v q' where r: "r = (v, q')" by (cases r)
      show ?thesis using Miss Hit ne[of j qptr r]
        by (simp add: Pop_scan_def Let_def scan_tail_frame[OF assms] scan_head_frame[OF assms]
            r with_channel_commute)
    next
      case (Bad f)
      then show ?thesis using Miss
        by (simp add: Pop_scan_def Let_def scan_tail_frame[OF assms] scan_head_frame[OF assms])
    next
      case (Miss m')
      then show ?thesis using \<open>?t = Miss m\<close>
        by (simp add: Pop_scan_def Let_def scan_tail_frame[OF assms] scan_head_frame[OF assms]
            with_channel_commute)
    qed
  qed
qed

lemma Pop_frame:
  assumes "Some q \<notin> set (c_queue_vec (consumer_objs s ! this))"
  shows "Pop this (with_channel q x s) = map_store (with_channel q x) (Pop this s)"
proof -
  let ?co = "consumer_objs s ! this"
  note sc = Pop_scan_frame[OF assms, of x]
  show ?thesis
  proof (cases "length (consumer_objs s) \<le> this")
    case True
    then show ?thesis by (simp add: Pop_def)
  next
    case False
    show ?thesis
    proof (cases "cur_index_read_cnt ?co \<noteq> 0 \<and> cur_index_read_cnt ?co < kMaxStickyReadCnt")
      case n: False
      then show ?thesis using False sc by (auto simp: Pop_def Let_def)
    next
      case y: True
      show ?thesis
      proof (cases "length (c_queue_vec ?co) \<le> c_cur_index ?co")
        case True
        then show ?thesis using False y by (simp add: Pop_def Let_def)
      next
        case i: False
        show ?thesis
        proof (cases "c_queue_vec ?co ! c_cur_index ?co")
          case None
          then show ?thesis using False y i by (simp add: Pop_def Let_def)
        next
          case (Some qptr)
          have ne: "qptr \<noteq> q" using assms i Some nth_mem[of "c_cur_index ?co" "c_queue_vec ?co"]
            by auto
          show ?thesis
          proof (cases "length (queue_objs s) \<le> qptr")
            case True
            then show ?thesis using False y i Some by (simp add: Pop_def Let_def)
          next
            case l: False
            show ?thesis
            proof (cases "Queue_Pop (queue_objs s ! qptr)")
              case None
              then show ?thesis using False y i Some l ne sc by (simp add: Pop_def Let_def)
            next
              case p: (Some r)
              obtain v q' where r: "r = (v, q')" by (cases r)
              show ?thesis using False y i Some l ne p
                by (simp add: Pop_def Let_def r with_channel_commute)
            qed
          qed
        qed
      qed
    qed
  qed
qed

lemma demo33_reachable: "reachable demo33"
  unfolding demo33_def by (intro reachable_after reachable.init)

lemma demo33_eq:
  "demo33 =
     \<lparr>qlen = 1, producers = [Some 0, Some 1, None], consumers = [Some 0, Some 1, None],
      producer_count = 2, consumer_count = 2, reclaimed_producers = [],
      producer_objs =
        [\<lparr>producer_index = 0, is_registered = True, p_cur_index = 4294967295,
          p_queue_vec = [Some 0, Some 1, None]\<rparr>,
         \<lparr>producer_index = 1, is_registered = True, p_cur_index = 4294967295,
          p_queue_vec = [Some 2, Some 3, None]\<rparr>],
      consumer_objs =
        [\<lparr>consumer_index = 0, c_cur_index = 4294967295, cur_index_read_cnt = 0,
          c_queue_vec = [Some 0, Some 2, None]\<rparr>,
         \<lparr>consumer_index = 1, c_cur_index = 4294967295, cur_index_read_cnt = 0,
          c_queue_vec = [Some 1, Some 3, None]\<rparr>],
      queue_objs = replicate 4 \<lparr>q_capacity = 1, q_items = []\<rparr>\<rparr>"
  by (simp add: demo33_def model_defs)

lemma channel_of_one_consumer:
  assumes inv: "matrix_inv s" and p: "p < producer_count s" and c: "c < consumer_count s"
    and c': "c' < consumer_count s" "c' \<noteq> c" and q: "producer_row s p ! c = Some q"
  shows "Some q \<notin> set (consumer_row s c')"
proof
  let ?D = "{..<producer_count s} \<times> {..<consumer_count s}"
  assume "Some q \<in> set (consumer_row s c')"
  then have "\<exists>i<length (consumer_row s c'). consumer_row s c' ! i = Some q"
    by (simp only: in_set_conv_nth)
  then obtain p1 where p1: "p1 < kMaxProducers s" "consumer_row s c' ! p1 = Some q"
    using inv_consumer_row(1)[OF inv c'(1)] by auto
  from inv have g: "grid s ?D" by (simp add: matrix_inv_def)
  then have pa: "paired s ?D" and un: "unshared s ?D" by (simp_all add: grid_def)
  have "p1 < producer_count s" using inv_consumer_row(2)[OF inv c'(1) p1(1)] p1(2) by simp
  then have d1: "(p1, c') \<in> ?D" using c'(1) by simp
  have d2: "(p, c) \<in> ?D" using p c by simp
  have "c_row s c' ! p1 = Some q" using p1(2) inv_rows(2)[OF inv c'(1)] by simp
  then have e1: "p_row s p1 ! c' = Some q" using pairedD(3)[OF pa d1] by simp
  have e2: "p_row s p ! c = Some q" using q inv_rows(1)[OF inv p] by simp
  from unsharedD[OF un d1 d2 e1 e2] c'(2) show False by simp
qed

lemma demo22_full_reachable: "reachable demo22_full"
  unfolding demo22_full_def by (intro reachable_after demo22_reachable)

lemma demo22_full_eq:
  "demo22_full =
     demo22\<lparr>producer_objs :=
        [\<lparr>producer_index = 0, is_registered = True, p_cur_index = 2,
          p_queue_vec = [Some 0, Some 1]\<rparr>,
         \<lparr>producer_index = 1, is_registered = True, p_cur_index = 4294967295,
          p_queue_vec = [Some 2, Some 3]\<rparr>],
       queue_objs :=
        [\<lparr>q_capacity = 1, q_items = [7]\<rparr>, \<lparr>q_capacity = 1, q_items = [8]\<rparr>,
         \<lparr>q_capacity = 1, q_items = []\<rparr>, \<lparr>q_capacity = 1, q_items = []\<rparr>]\<rparr>"
  by (simp add: demo22_full_def demo22_eq model_defs)

subsection \<open>A scan that finds nothing\<close>

lemma scan_tail_nothing:
  assumes "\<forall>k q. k < length vec \<longrightarrow> vec ! k = Some q \<longrightarrow> q < length heap \<and> attempt (heap ! q) = None"
    "kmax \<le> length vec"
  shows "\<exists>j. scan_tail kmax vec heap attempt i = Miss j"
proof (rule scan_tail_miss[OF _ _ assms(2)])
  show "\<forall>k q. k < length vec \<longrightarrow> vec ! k = Some q \<longrightarrow> q < length heap" using assms(1) by blast
  have "\<not> answers attempt heap vec k" if "wired_at vec k" for k
    using that assms(1) by (auto simp: answers_def wired_at_def)
  then show "find (answers attempt heap vec) (takeWhile (wired_at vec) [i ..< kmax]) = None"
    by (auto simp: find_None_iff dest: set_takeWhileD)
qed

text \<open>
  The second loop stops with a miss at an empty entry of the row, if there is one at or
  after its start, or just after \<^verbatim>\<open>last_index\<close>.
\<close>

lemma scan_head_nothing:
  assumes "\<forall>k q. k < length vec \<longrightarrow> vec ! k = Some q \<longrightarrow> q < length heap \<and> attempt (heap ! q) = None"
    "(\<exists>u. i \<le> u \<and> u < length vec \<and> vec ! u = None) \<or> last_index < length vec"
  shows "\<exists>j. scan_head vec heap attempt last_index i = Miss j"
  using assms
proof (induction vec heap attempt last_index i rule: scan_head.induct)
  case (1 vec heap attempt last_index i)
  show ?case
  proof (cases "i \<le> last_index")
    case False
    then show ?thesis by (subst scan_head.simps) simp
  next
    case True
    have il: "i < length vec" using "1.prems"(2) True by auto
    show ?thesis
    proof (cases "vec ! i")
      case None
      then show ?thesis using True il by (subst scan_head.simps) simp
    next
      case (Some q)
      have q: "q < length heap" "attempt (heap ! q) = None" using "1.prems"(1) il Some by blast+
      have "(\<exists>u. i + 1 \<le> u \<and> u < length vec \<and> vec ! u = None) \<or> last_index < length vec"
      proof (cases "last_index < length vec")
        case True
        then show ?thesis by simp
      next
        case False
        then obtain u where u: "i \<le> u" "u < length vec" "vec ! u = None"
          using "1.prems"(2) by auto
        then have "u \<noteq> i" using Some by auto
        then show ?thesis using u by (intro disjI1 exI[of _ u]) simp
      qed
      from "1.IH"[OF True _ Some _ q(2) "1.prems"(1) this] il q
      obtain j where "scan_head vec heap attempt last_index (i + 1) = Miss j" by auto
      then show ?thesis using True il Some q by (subst scan_head.simps) simp
    qed
  qed
qed

text \<open>
  With every entry from the start on wired and \<^verbatim>\<open>last_index\<close> not below the length of
  the row, the second loop reads outside the row.
\<close>

lemma scan_head_past_the_row:
  assumes "\<forall>k. i \<le> k \<longrightarrow> k < length vec \<longrightarrow>
             (\<exists>q. vec ! k = Some q \<and> q < length heap \<and> attempt (heap ! q) = None)"
    "length vec \<le> last_index" "i \<le> length vec"
  shows "scan_head vec heap attempt last_index i = Bad out_of_bounds"
  using assms
proof (induction vec heap attempt last_index i rule: scan_head.induct)
  case (1 vec heap attempt last_index i)
  show ?case
  proof (cases "i < length vec")
    case False
    then show ?thesis using "1.prems"(2,3) by (subst scan_head.simps) simp
  next
    case True
    then obtain q where q: "vec ! i = Some q" "q < length heap" "attempt (heap ! q) = None"
      using "1.prems"(1) by blast
    have le: "i \<le> last_index" using True "1.prems"(2) by simp
    have "scan_head vec heap attempt last_index (i + 1) = Bad out_of_bounds"
      using "1.IH"[OF le _ q(1) _ q(3)] True q(2) "1.prems" by simp
    then show ?thesis using True le q by (subst scan_head.simps) simp
  qed
qed

text \<open>
  So a fan-out push that finds every wired channel full returns false when the row has
  an empty entry or the cursor is inside the row, and reads outside the row when the
  row is completely wired and the cursor is not inside it. The same holds of the scan
  of a pop that finds every wired channel empty.
\<close>

lemma Push_nothing_accepts:
  assumes "this < length (producer_objs s)" "is_registered (producer_objs s ! this)"
    and "length (p_queue_vec (producer_objs s ! this)) = kMaxConsumers s"
    and "\<forall>k q. k < length (p_queue_vec (producer_objs s ! this)) \<longrightarrow>
            p_queue_vec (producer_objs s ! this) ! k = Some q \<longrightarrow>
            q < length (queue_objs s) \<and> Queue_Push v (queue_objs s ! q) = None"
  shows "(\<exists>u<kMaxConsumers s. p_queue_vec (producer_objs s ! this) ! u = None) \<or>
           p_cur_index (producer_objs s ! this) < kMaxConsumers s \<Longrightarrow>
         \<exists>i. Push this v s = Returned False (set_p_cur_index this i s)"
    and "\<forall>u<kMaxConsumers s. p_queue_vec (producer_objs s ! this) ! u \<noteq> None \<Longrightarrow>
         kMaxConsumers s \<le> p_cur_index (producer_objs s ! this) \<Longrightarrow>
         Push this v s = Fault out_of_bounds"
proof -
  let ?pr = "producer_objs s ! this"
  from scan_tail_nothing[OF assms(4), of "kMaxConsumers s" "size_inc (p_cur_index ?pr)"] assms(3)
  obtain j where t: "scan_tail (kMaxConsumers s) (p_queue_vec ?pr) (queue_objs s) (Queue_Push v)
      (size_inc (p_cur_index ?pr)) = Miss j"
    by auto
  show "\<exists>i. Push this v s = Returned False (set_p_cur_index this i s)"
    if "(\<exists>u<kMaxConsumers s. p_queue_vec ?pr ! u = None) \<or> p_cur_index ?pr < kMaxConsumers s"
  proof -
    have "(\<exists>u. 0 \<le> u \<and> u < length (p_queue_vec ?pr) \<and> p_queue_vec ?pr ! u = None) \<or>
          p_cur_index ?pr < length (p_queue_vec ?pr)"
      using that assms(3) by auto
    from scan_head_nothing[OF assms(4) this] obtain i
      where "scan_head (p_queue_vec ?pr) (queue_objs s) (Queue_Push v) (p_cur_index ?pr) 0 = Miss i"
      by auto
    then have "Push this v s = Returned False (set_p_cur_index this i s)"
      using assms(1,2) t by (simp add: Push_def Let_def)
    then show ?thesis by blast
  qed
  show "Push this v s = Fault out_of_bounds"
    if "\<forall>u<kMaxConsumers s. p_queue_vec ?pr ! u \<noteq> None" "kMaxConsumers s \<le> p_cur_index ?pr"
  proof -
    have "\<forall>k. 0 \<le> k \<longrightarrow> k < length (p_queue_vec ?pr) \<longrightarrow>
             (\<exists>q. p_queue_vec ?pr ! k = Some q \<and> q < length (queue_objs s) \<and>
                  Queue_Push v (queue_objs s ! q) = None)"
      using that(1) assms(3,4) by auto
    from scan_head_past_the_row[OF this] that(2) assms(3)
    have "scan_head (p_queue_vec ?pr) (queue_objs s) (Queue_Push v) (p_cur_index ?pr) 0 =
            Bad out_of_bounds"
      by simp
    then show ?thesis using assms(1,2) t by (simp add: Push_def Let_def)
  qed
qed

lemma Pop_scan_nothing_yields:
  assumes "length (c_queue_vec (consumer_objs s ! this)) = kMaxProducers s"
    and "\<forall>k q. k < length (c_queue_vec (consumer_objs s ! this)) \<longrightarrow>
            c_queue_vec (consumer_objs s ! this) ! k = Some q \<longrightarrow>
            q < length (queue_objs s) \<and> Queue_Pop (queue_objs s ! q) = None"
  shows "(\<exists>u<kMaxProducers s. c_queue_vec (consumer_objs s ! this) ! u = None) \<or>
           c_cur_index (consumer_objs s ! this) < kMaxProducers s \<Longrightarrow>
         \<exists>i. Pop_scan this s = Returned None (set_consumer this i 0 s)"
    and "\<forall>u<kMaxProducers s. c_queue_vec (consumer_objs s ! this) ! u \<noteq> None \<Longrightarrow>
         kMaxProducers s \<le> c_cur_index (consumer_objs s ! this) \<Longrightarrow>
         Pop_scan this s = Fault out_of_bounds"
proof -
  let ?co = "consumer_objs s ! this"
  from scan_tail_nothing[OF assms(2), of "kMaxProducers s" "size_inc (c_cur_index ?co)"] assms(1)
  obtain j where t: "scan_tail (kMaxProducers s) (c_queue_vec ?co) (queue_objs s) Queue_Pop
      (size_inc (c_cur_index ?co)) = Miss j"
    by auto
  show "\<exists>i. Pop_scan this s = Returned None (set_consumer this i 0 s)"
    if "(\<exists>u<kMaxProducers s. c_queue_vec ?co ! u = None) \<or> c_cur_index ?co < kMaxProducers s"
  proof -
    have "(\<exists>u. 0 \<le> u \<and> u < length (c_queue_vec ?co) \<and> c_queue_vec ?co ! u = None) \<or>
          c_cur_index ?co < length (c_queue_vec ?co)"
      using that assms(1) by auto
    from scan_head_nothing[OF assms(2) this] obtain i
      where "scan_head (c_queue_vec ?co) (queue_objs s) Queue_Pop (c_cur_index ?co) 0 = Miss i"
      by auto
    then have "Pop_scan this s = Returned None (set_consumer this i 0 s)"
      using t by (simp add: Pop_scan_def Let_def)
    then show ?thesis by blast
  qed
  show "Pop_scan this s = Fault out_of_bounds"
    if "\<forall>u<kMaxProducers s. c_queue_vec ?co ! u \<noteq> None" "kMaxProducers s \<le> c_cur_index ?co"
  proof -
    have "\<forall>k. 0 \<le> k \<longrightarrow> k < length (c_queue_vec ?co) \<longrightarrow>
             (\<exists>q. c_queue_vec ?co ! k = Some q \<and> q < length (queue_objs s) \<and>
                  Queue_Pop (queue_objs s ! q) = None)"
      using that(1) assms(1,2) by auto
    from scan_head_past_the_row[OF this] that(2) assms(1)
    have "scan_head (c_queue_vec ?co) (queue_objs s) Queue_Pop (c_cur_index ?co) 0 =
            Bad out_of_bounds"
      by simp
    then show ?thesis using t by (simp add: Pop_scan_def Let_def)
  qed
qed

subsection \<open>The scan of Pop\<close>

lemma scan_head_miss:
  assumes "find (answers attempt heap vec) (takeWhile (wired_at vec) [i ..< last_index + 1]) = None"
    "\<forall>k q. k < length vec \<longrightarrow> vec ! k = Some q \<longrightarrow> q < length heap"
    "(\<exists>u. i \<le> u \<and> u < length vec \<and> vec ! u = None) \<or> last_index < length vec"
  shows "scan_head vec heap attempt last_index i =
           Miss (i + length (takeWhile (wired_at vec) [i ..< last_index + 1]))"
  using assms
proof (induction vec heap attempt last_index i rule: scan_head.induct)
  case (1 vec heap attempt last_index i)
  show ?case
  proof (cases "i \<le> last_index")
    case False
    then show ?thesis by (subst scan_head.simps) simp
  next
    case True
    then have u: "[i ..< last_index + 1] = i # [i + 1 ..< last_index + 1]"
      by (simp add: upt_conv_Cons)
    have il: "i < length vec" using "1.prems"(3) True by auto
    show ?thesis
    proof (cases "vec ! i")
      case None
      then have "\<not> wired_at vec i" by (simp add: wired_at_def)
      then show ?thesis using True il None unfolding u by (subst scan_head.simps) simp
    next
      case (Some q)
      have ql: "q < length heap" using "1.prems"(2) il Some by blast
      have w: "wired_at vec i" using il Some by (simp add: wired_at_def)
      have ai: "answers attempt heap vec i = (attempt (heap ! q) \<noteq> None)"
        using Some by (simp add: answers_def)
      have n: "attempt (heap ! q) = None"
        using "1.prems"(1) w unfolding u by (auto simp: ai split: if_splits)
      have f: "find (answers attempt heap vec)
                 (takeWhile (wired_at vec) [i + 1 ..< last_index + 1]) = None"
        using "1.prems"(1) w n unfolding u by (simp add: ai)
      have e: "(\<exists>u. i + 1 \<le> u \<and> u < length vec \<and> vec ! u = None) \<or> last_index < length vec"
      proof (cases "last_index < length vec")
        case True
        then show ?thesis by simp
      next
        case False
        then obtain u where u: "i \<le> u" "u < length vec" "vec ! u = None"
          using "1.prems"(3) by auto
        then have "u \<noteq> i" using Some by auto
        then show ?thesis using u by (intro disjI1 exI[of _ u]) simp
      qed
      from "1.IH"[OF True _ Some _ n f "1.prems"(2) e] il ql
      have "scan_head vec heap attempt last_index (i + 1) =
              Miss (i + 1 + length (takeWhile (wired_at vec) [i + 1 ..< last_index + 1]))"
        by auto
      then show ?thesis using True il Some ql n w unfolding u by (subst scan_head.simps) simp
    qed
  qed
qed

lemma scan_tail_Hit_result:
  "scan_tail kmax vec heap attempt i = Hit j qptr r \<Longrightarrow>
   qptr < length heap \<and> attempt (heap ! qptr) = Some r"
proof (induction kmax vec heap attempt i rule: scan_tail.induct)
  case (1 kmax vec heap attempt i)
  from "1.prems" show ?case
    by (subst (asm) scan_tail.simps) (auto split: if_splits option.splits dest: "1.IH")
qed

lemma scan_head_Hit_result:
  "scan_head vec heap attempt last_index i = Hit j qptr r \<Longrightarrow>
   qptr < length heap \<and> attempt (heap ! qptr) = Some r"
proof (induction vec heap attempt last_index i rule: scan_head.induct)
  case (1 vec heap attempt last_index i)
  from "1.prems" show ?case
    by (subst (asm) scan_head.simps) (auto split: if_splits option.splits dest: "1.IH")
qed

lemma Pop_scan_hit:
  assumes "length (c_queue_vec (consumer_objs s ! this)) = kMaxProducers s"
    and "\<forall>k q. k < length (c_queue_vec (consumer_objs s ! this)) \<longrightarrow>
            c_queue_vec (consumer_objs s ! this) ! k = Some q \<longrightarrow> q < length (queue_objs s)"
    and "c_cur_index (consumer_objs s ! this) + 1 < 2 ^ 64"
    and "find (answers Queue_Pop (queue_objs s) (c_queue_vec (consumer_objs s ! this)))
           (scan_order (c_queue_vec (consumer_objs s ! this))
              (c_cur_index (consumer_objs s ! this))) = Some i"
  shows "\<exists>q v q'. c_queue_vec (consumer_objs s ! this) ! i = Some q \<and>
           Queue_Pop (queue_objs s ! q) = Some (v, q') \<and>
           Pop_scan this s =
             Returned (Some v) (set_consumer this i 1 (s\<lparr>queue_objs := (queue_objs s)[q := q']\<rparr>))"
proof -
  let ?co = "consumer_objs s ! this"
  let ?row = "c_queue_vec ?co" and ?cur = "c_cur_index ?co" and ?heap = "queue_objs s"
  let ?P = "answers Queue_Pop ?heap ?row"
  let ?first = "takeWhile (wired_at ?row) [?cur + 1 ..< kMaxProducers s]"
  let ?second = "takeWhile (wired_at ?row) [0 ..< ?cur + 1]"
  have inc: "size_inc ?cur = ?cur + 1" using assms(3) by (simp add: size_inc_def)
  have f: "(case find ?P ?first of Some x \<Rightarrow> Some x | None \<Rightarrow> find ?P ?second) = Some i"
    using assms(4) unfolding scan_order_def find_append_first assms(1) .
  show ?thesis
  proof (cases "find ?P ?first")
    case (Some j)
    then have "j = i" using f by simp
    from scan_tail_hit[OF Some[unfolded this] assms(2)] obtain q r
      where h: "?row ! i = Some q" "Queue_Pop (?heap ! q) = Some r"
        "scan_tail (kMaxProducers s) ?row ?heap Queue_Pop (?cur + 1) = Hit i q r"
      by blast
    obtain v q' where r: "r = (v, q')" by (cases r)
    show ?thesis using h unfolding r by (simp add: Pop_scan_def Let_def inc)
  next
    case None
    then have "find ?P ?second = Some i" using f by simp
    from scan_head_hit[OF this assms(2)] obtain q r
      where h: "?row ! i = Some q" "Queue_Pop (?heap ! q) = Some r"
        "scan_head ?row ?heap Queue_Pop ?cur 0 = Hit i q r"
      by blast
    obtain v q' where r: "r = (v, q')" by (cases r)
    from scan_tail_miss[OF None assms(2)] assms(1) obtain j
      where "scan_tail (kMaxProducers s) ?row ?heap Queue_Pop (?cur + 1) = Miss j"
      by auto
    then show ?thesis using h unfolding r by (simp add: Pop_scan_def Let_def inc)
  qed
qed

lemma Pop_scan_miss:
  assumes "length (c_queue_vec (consumer_objs s ! this)) = kMaxProducers s"
    and "\<forall>k q. k < length (c_queue_vec (consumer_objs s ! this)) \<longrightarrow>
            c_queue_vec (consumer_objs s ! this) ! k = Some q \<longrightarrow> q < length (queue_objs s)"
    and "c_cur_index (consumer_objs s ! this) + 1 < 2 ^ 64"
    and "find (answers Queue_Pop (queue_objs s) (c_queue_vec (consumer_objs s ! this)))
           (scan_order (c_queue_vec (consumer_objs s ! this))
              (c_cur_index (consumer_objs s ! this))) = None"
    and "c_cur_index (consumer_objs s ! this) < length (c_queue_vec (consumer_objs s ! this)) \<or>
         (\<exists>u<length (c_queue_vec (consumer_objs s ! this)).
            c_queue_vec (consumer_objs s ! this) ! u = None)"
  shows "Pop_scan this s =
           Returned None
             (set_consumer this
                (length (takeWhile (wired_at (c_queue_vec (consumer_objs s ! this)))
                   [0 ..< c_cur_index (consumer_objs s ! this) + 1])) 0 s)"
proof -
  let ?co = "consumer_objs s ! this"
  let ?row = "c_queue_vec ?co" and ?cur = "c_cur_index ?co" and ?heap = "queue_objs s"
  let ?P = "answers Queue_Pop ?heap ?row"
  let ?first = "takeWhile (wired_at ?row) [?cur + 1 ..< kMaxProducers s]"
  let ?second = "takeWhile (wired_at ?row) [0 ..< ?cur + 1]"
  have inc: "size_inc ?cur = ?cur + 1" using assms(3) by (simp add: size_inc_def)
  have f: "(case find ?P ?first of Some x \<Rightarrow> Some x | None \<Rightarrow> find ?P ?second) = None"
    using assms(4) unfolding scan_order_def find_append_first assms(1) .
  then have n1: "find ?P ?first = None" and n2: "find ?P ?second = None"
    by (simp_all split: option.splits)
  from scan_tail_miss[OF n1 assms(2)] assms(1) obtain j
    where t: "scan_tail (kMaxProducers s) ?row ?heap Queue_Pop (?cur + 1) = Miss j"
    by auto
  have "(\<exists>u. 0 \<le> u \<and> u < length ?row \<and> ?row ! u = None) \<or> ?cur < length ?row"
    using assms(5) by auto
  from scan_head_miss[OF n2 assms(2) this]
  have h: "scan_head ?row ?heap Queue_Pop ?cur 0 = Miss (length ?second)" by simp
  show ?thesis using t h by (simp add: Pop_scan_def Let_def inc)
qed

lemma Pop_scan_cases:
  assumes "Pop_scan this s = Returned w s'"
  shows "(\<exists>i. w = None \<and> s' = set_consumer this i 0 s) \<or>
         (\<exists>v i q q'. w = Some v \<and>
            s' = set_consumer this i 1 (s\<lparr>queue_objs := (queue_objs s)[q := q']\<rparr>) \<and>
            i < length (c_queue_vec (consumer_objs s ! this)) \<and>
            c_queue_vec (consumer_objs s ! this) ! i = Some q \<and> q < length (queue_objs s) \<and>
            Queue_Pop (queue_objs s ! q) = Some (v, q'))"
proof -
  let ?co = "consumer_objs s ! this"
  let ?row = "c_queue_vec ?co" and ?heap = "queue_objs s"
  show ?thesis
  proof (cases "scan_tail (kMaxProducers s) ?row ?heap Queue_Pop (size_inc (c_cur_index ?co))")
    case (Hit i q r)
    obtain v q' where r: "r = (v, q')" by (cases r)
    from assms Hit r
    have "w = Some v" "s' = set_consumer this i 1 (s\<lparr>queue_objs := ?heap[q := q']\<rparr>)"
      by (simp_all add: Pop_scan_def Let_def)
    then show ?thesis
      using scan_tail_Hit_at[OF Hit] scan_tail_Hit_result[OF Hit] r by blast
  next
    case (Bad f)
    then show ?thesis using assms by (simp add: Pop_scan_def Let_def)
  next
    case (Miss j)
    show ?thesis
    proof (cases "scan_head ?row ?heap Queue_Pop (c_cur_index ?co) 0")
      case (Hit i q r)
      obtain v q' where r: "r = (v, q')" by (cases r)
      from assms Miss Hit r
      have "w = Some v" "s' = set_consumer this i 1 (s\<lparr>queue_objs := ?heap[q := q']\<rparr>)"
        by (simp_all add: Pop_scan_def Let_def)
      then show ?thesis
        using scan_head_Hit_at[OF Hit] scan_head_Hit_result[OF Hit] r by blast
    next
      case (Bad f)
      then show ?thesis using assms Miss by (simp add: Pop_scan_def Let_def)
    next
      case Miss2: (Miss k)
      then have "w = None" "s' = set_consumer this k 0 s"
        using assms Miss by (simp_all add: Pop_scan_def Let_def)
      then show ?thesis by blast
    qed
  qed
qed

lemma Pop_scan_cursor:
  assumes "this < length (consumer_objs s)" "Pop_scan this s = Returned (Some v) s'"
  shows "\<exists>q q'. c_cur_index (consumer_objs s' ! this) < length (c_queue_vec (consumer_objs s ! this)) \<and>
           c_queue_vec (consumer_objs s ! this) ! c_cur_index (consumer_objs s' ! this) = Some q \<and>
           q < length (queue_objs s) \<and>
           Queue_Pop (queue_objs s ! q) = Some (v, q') \<and>
           queue_objs s' = (queue_objs s)[q := q'] \<and>
           c_queue_vec (consumer_objs s' ! this) = c_queue_vec (consumer_objs s ! this)"
proof -
  let ?row = "c_queue_vec (consumer_objs s ! this)" and ?heap = "queue_objs s"
  from Pop_scan_cases[OF assms(2)]
  obtain i q q' where x: "s' = set_consumer this i 1 (s\<lparr>queue_objs := ?heap[q := q']\<rparr>)"
    "i < length ?row" "?row ! i = Some q" "q < length ?heap" "Queue_Pop (?heap ! q) = Some (v, q')"
    by auto
  have "c_cur_index (consumer_objs s' ! this) = i" "queue_objs s' = ?heap[q := q']"
    "c_queue_vec (consumer_objs s' ! this) = ?row"
    using assms(1) by (simp_all add: x(1) set_consumer_def)
  then show ?thesis using x(2-5) by simp
qed

lemma sticky_hit_after:
  assumes "this < length (consumer_objs s)" "sticky_hit this s"
  shows "this < length (consumer_objs (after (Pop this) s))"
    and "c_cur_index (consumer_objs (after (Pop this) s) ! this) = c_cur_index (consumer_objs s ! this)"
    and "cur_index_read_cnt (consumer_objs (after (Pop this) s) ! this) =
           cur_index_read_cnt (consumer_objs s ! this) + 1"
    and "c_queue_vec (consumer_objs (after (Pop this) s) ! this) = c_queue_vec (consumer_objs s ! this)"
    and "\<exists>v. Pop this s = Returned (Some v) (after (Pop this) s)"
proof -
  let ?co = "consumer_objs s ! this"
  from assms(2) obtain q where c: "cur_index_read_cnt ?co \<noteq> 0"
    "cur_index_read_cnt ?co < kMaxStickyReadCnt" "c_cur_index ?co < length (c_queue_vec ?co)"
    "c_queue_vec ?co ! c_cur_index ?co = Some q" "q < length (queue_objs s)"
    "Queue_Pop (queue_objs s ! q) \<noteq> None"
    by (auto simp: sticky_hit_def Let_def split: option.splits)
  from c(6) obtain v q' where p: "Queue_Pop (queue_objs s ! q) = Some (v, q')" by auto
  have "size_inc (cur_index_read_cnt ?co) = cur_index_read_cnt ?co + 1"
    using c(2) by (simp add: size_inc_def kMaxStickyReadCnt_def)
  then have r: "Pop this s =
      Returned (Some v) (set_consumer this (c_cur_index ?co) (cur_index_read_cnt ?co + 1)
         (s\<lparr>queue_objs := (queue_objs s)[q := q']\<rparr>))"
    using assms(1) c p by (simp add: Pop_def Let_def)
  show "this < length (consumer_objs (after (Pop this) s))"
    "c_cur_index (consumer_objs (after (Pop this) s) ! this) = c_cur_index ?co"
    "cur_index_read_cnt (consumer_objs (after (Pop this) s) ! this) = cur_index_read_cnt ?co + 1"
    "c_queue_vec (consumer_objs (after (Pop this) s) ! this) = c_queue_vec ?co"
    "\<exists>v. Pop this s = Returned (Some v) (after (Pop this) s)"
    using assms(1) by (simp_all add: after_def r set_consumer_def)
qed

lemma sticky_run_pops:
  assumes "this < length (consumer_objs s)" "sticky_run n this s"
  shows "this < length (consumer_objs (pops n this s)) \<and>
         c_cur_index (consumer_objs (pops n this s) ! this) = c_cur_index (consumer_objs s ! this) \<and>
         cur_index_read_cnt (consumer_objs (pops n this s) ! this) =
           cur_index_read_cnt (consumer_objs s ! this) + n \<and>
         c_queue_vec (consumer_objs (pops n this s) ! this) = c_queue_vec (consumer_objs s ! this)"
  using assms
proof (induction n arbitrary: s)
  case 0
  then show ?case by simp
next
  case (Suc n)
  from Suc.prems(2) have h: "sticky_hit this s" by simp
  note a = sticky_hit_after[OF Suc.prems(1) h]
  from a(5) obtain v where "Pop this s = Returned (Some v) (after (Pop this) s)" ..
  then have "sticky_run n this (after (Pop this) s)"
    using Suc.prems(2) by simp
  from Suc.IH[OF a(1) this] show ?case by (simp add: a(2,3,4))
qed

lemma demo_feeds_eq:
  "demo_feeds =
     \<lparr>qlen = 3, producers = [Some 0, Some 1, None], consumers = [Some 0, None],
      producer_count = 2, consumer_count = 1, reclaimed_producers = [],
      producer_objs =
        [\<lparr>producer_index = 0, is_registered = True, p_cur_index = 0,
          p_queue_vec = [Some 0, None]\<rparr>,
         \<lparr>producer_index = 1, is_registered = True, p_cur_index = 0,
          p_queue_vec = [Some 1, None]\<rparr>],
      consumer_objs =
        [\<lparr>consumer_index = 0, c_cur_index = 1, cur_index_read_cnt = 1,
          c_queue_vec = [Some 0, Some 1, None]\<rparr>],
      queue_objs =
        [\<lparr>q_capacity = 3, q_items = [11]\<rparr>, \<lparr>q_capacity = 3, q_items = [9, 10]\<rparr>]\<rparr>"
  by (simp add: demo_feeds_def model_defs)

lemma demo_feeds_reachable: "reachable demo_feeds"
  unfolding demo_feeds_def by (intro reachable_after reachable.init)

subsection \<open>The sticky counter in reachable stores\<close>

lemma sticky_okD:
  "sticky_ok s \<Longrightarrow> c < length (consumer_objs s) \<Longrightarrow>
   cur_index_read_cnt (consumer_objs s ! c) \<noteq> 0 \<Longrightarrow>
   c_cur_index (consumer_objs s ! c) < producer_count s \<and>
   cur_index_read_cnt (consumer_objs s ! c) \<le> 32"
  by (simp add: sticky_ok_def)

lemma sticky_ok_same_consumers:
  "sticky_ok s \<Longrightarrow> consumer_objs s' = consumer_objs s \<Longrightarrow>
   producer_count s \<le> producer_count s' \<Longrightarrow> sticky_ok s'"
  by (fastforce simp: sticky_ok_def)

lemma RegisterConsumer_sticky:
  assumes "matrix_inv s" "sticky_ok s" "RegisterConsumer s = Returned r s'"
  shows "sticky_ok s'"
proof (cases "consumer_count s < kMaxConsumers s")
  case False
  then show ?thesis using assms by (simp add: RegisterConsumer_def Let_def)
next
  case True
  from RegisterConsumer_inv[OF assms(1) True] assms(3)
  have p: "producer_count s' = producer_count s"
    and l: "length (consumer_objs s') = Suc (length (consumer_objs s))"
    and z: "cur_index_read_cnt (consumer_objs s' ! length (consumer_objs s)) = 0"
    and k: "\<And>c. c < length (consumer_objs s) \<Longrightarrow>
              c_cur_index (consumer_objs s' ! c) = c_cur_index (consumer_objs s ! c) \<and>
              cur_index_read_cnt (consumer_objs s' ! c) = cur_index_read_cnt (consumer_objs s ! c)"
    by auto
  show ?thesis
    unfolding sticky_ok_def
  proof (intro allI impI)
    fix c assume c: "c < length (consumer_objs s')"
      and n: "cur_index_read_cnt (consumer_objs s' ! c) \<noteq> 0"
    have "c \<noteq> length (consumer_objs s)" using n z by auto
    then have "c < length (consumer_objs s)" using c l by simp
    then show "c_cur_index (consumer_objs s' ! c) < producer_count s' \<and>
          cur_index_read_cnt (consumer_objs s' ! c) \<le> 32"
      using sticky_okD[OF assms(2), of c] k[of c] n p by simp
  qed
qed

lemma RegisterProducer_sticky:
  assumes "matrix_inv s" "sticky_ok s" "RegisterProducer s = Returned r s'"
  shows "sticky_ok s'"
proof (cases "reclaimed_producers s = []")
  case False
  from RegisterProducer_reclaim(1)[OF assms(1) False] assms(3)
  have "s' = set_registered (last (reclaimed_producers s)) True (butlast (reclaimed_producers s)) s"
    by simp
  then show ?thesis using sticky_ok_same_consumers[OF assms(2), of s'] by simp
next
  case e: True
  show ?thesis
  proof (cases "producer_count s < kMaxProducers s")
    case False
    then show ?thesis using assms e by (simp add: RegisterProducer_def Let_def)
  next
    case True
    from RegisterProducer_fresh_inv[OF assms(1) e True] assms(3)
    have p: "producer_count s' = Suc (producer_count s)"
      and l: "length (consumer_objs s') = length (consumer_objs s)"
      and k: "\<And>c. c < length (consumer_objs s) \<Longrightarrow>
              c_cur_index (consumer_objs s' ! c) = c_cur_index (consumer_objs s ! c) \<and>
              cur_index_read_cnt (consumer_objs s' ! c) = cur_index_read_cnt (consumer_objs s ! c)"
      by auto
    show ?thesis
      unfolding sticky_ok_def
    proof (intro allI impI)
      fix c assume c: "c < length (consumer_objs s')"
        and n: "cur_index_read_cnt (consumer_objs s' ! c) \<noteq> 0"
      have "c < length (consumer_objs s)" using c l by simp
      then show "c_cur_index (consumer_objs s' ! c) < producer_count s' \<and>
          cur_index_read_cnt (consumer_objs s' ! c) \<le> 32"
        using sticky_okD[OF assms(2), of c] k[of c] n p by simp
    qed
  qed
qed

lemma UnregisterProducer_sticky:
  assumes "sticky_ok s" "UnregisterProducer a s = Returned u s'"
  shows "sticky_ok s'"
  using assms(2) sticky_ok_same_consumers[OF assms(1), of s']
  by (auto simp: UnregisterProducer_def Let_def split: if_splits)

lemma Push_sticky:
  assumes "sticky_ok s" "Push this v s = Returned b s'"
  shows "sticky_ok s'"
  using assms(2) sticky_ok_same_consumers[OF assms(1), of s']
  by (auto simp: Push_def Let_def set_p_cur_index_def split: if_splits scan.splits)

lemma Push_idx_sticky:
  assumes "sticky_ok s" "Push_idx this idx v s = Returned b s'"
  shows "sticky_ok s'"
  using assms(2) sticky_ok_same_consumers[OF assms(1), of s']
  by (auto simp: Push_idx_def Let_def split: if_splits option.splits)

lemma sticky_ok_set_consumer:
  assumes ok: "sticky_ok s" and n: "n \<noteq> 0 \<longrightarrow> i < producer_count s \<and> n \<le> 32"
  shows "sticky_ok (set_consumer this i n (s\<lparr>queue_objs := qs\<rparr>))"
  unfolding sticky_ok_def
proof (intro allI impI)
  let ?s' = "set_consumer this i n (s\<lparr>queue_objs := qs\<rparr>)"
  fix c assume c: "c < length (consumer_objs ?s')"
    and nz: "cur_index_read_cnt (consumer_objs ?s' ! c) \<noteq> 0"
  have l: "c < length (consumer_objs s)" using c by (simp add: set_consumer_def)
  have pc: "producer_count ?s' = producer_count s" by (simp add: set_consumer_def)
  show "c_cur_index (consumer_objs ?s' ! c) < producer_count ?s' \<and>
        cur_index_read_cnt (consumer_objs ?s' ! c) \<le> 32"
  proof (cases "c = this")
    case True
    then have "c_cur_index (consumer_objs ?s' ! c) = i" "cur_index_read_cnt (consumer_objs ?s' ! c) = n"
      using l by (simp_all add: set_consumer_def)
    then show ?thesis using n nz pc by simp
  next
    case False
    then have "consumer_objs ?s' ! c = consumer_objs s ! c"
      by (simp add: set_consumer_def)
    then show ?thesis using sticky_okD[OF ok l] nz pc by simp
  qed
qed

lemma wired_index_in_use:
  assumes inv: "matrix_inv s" and c: "c < length (consumer_objs s)"
    and i: "i < length (c_queue_vec (consumer_objs s ! c))"
      "c_queue_vec (consumer_objs s ! c) ! i = Some q"
  shows "i < producer_count s"
proof -
  from inv have t: "tables_ok s" by (simp add: matrix_inv_def)
  have cc: "c < consumer_count s" using t c by (simp add: tables_ok_def)
  have r: "c_queue_vec (consumer_objs s ! c) = consumer_row s c"
    using inv_rows(2)[OF inv cc] by (simp add: c_row_def)
  have "i < kMaxProducers s" using i(1) inv_consumer_row(1)[OF inv cc] r by simp
  from inv_consumer_row(2)[OF inv cc this] i(2) r show ?thesis by simp
qed

lemma Pop_scan_sticky:
  assumes inv: "matrix_inv s" and ok: "sticky_ok s" and c: "this < length (consumer_objs s)"
    and p: "Pop_scan this s = Returned w s'"
  shows "sticky_ok s'"
proof (cases w)
  case None
  from Pop_scan_cases[OF p] None obtain i where "s' = set_consumer this i 0 s" by auto
  then have "s' = set_consumer this i 0 (s\<lparr>queue_objs := queue_objs s\<rparr>)" by simp
  then show ?thesis using sticky_ok_set_consumer[OF ok, of 0 i this "queue_objs s"] by simp
next
  case (Some v)
  from Pop_scan_cases[OF p] Some obtain i q q'
    where x: "s' = set_consumer this i 1 (s\<lparr>queue_objs := (queue_objs s)[q := q']\<rparr>)"
      "i < length (c_queue_vec (consumer_objs s ! this))"
      "c_queue_vec (consumer_objs s ! this) ! i = Some q"
    by auto
  from wired_index_in_use[OF inv c x(2,3)] have "i < producer_count s" .
  then show ?thesis unfolding x(1) by (intro sticky_ok_set_consumer[OF ok]) simp
qed

lemma Pop_cases:
  assumes "Pop this s = Returned w s'"
  shows "Pop_scan this s = Returned w s' \<or>
         (\<exists>v q q'. w = Some v \<and> cur_index_read_cnt (consumer_objs s ! this) \<noteq> 0 \<and>
            cur_index_read_cnt (consumer_objs s ! this) < 32 \<and>
            s' = set_consumer this (c_cur_index (consumer_objs s ! this))
                   (cur_index_read_cnt (consumer_objs s ! this) + 1)
                   (s\<lparr>queue_objs := (queue_objs s)[q := q']\<rparr>))"
proof (cases "Pop this s = Pop_scan this s")
  case True
  then show ?thesis using assms by simp
next
  case False
  let ?co = "consumer_objs s ! this"
  from assms have c: "this < length (consumer_objs s)"
    by (auto simp: Pop_def split: if_splits)
  from False c have fast: "cur_index_read_cnt ?co \<noteq> 0" "cur_index_read_cnt ?co < 32"
    by (auto simp: Pop_def Let_def kMaxStickyReadCnt_def split: if_splits)
  have inc: "size_inc (cur_index_read_cnt ?co) = cur_index_read_cnt ?co + 1"
    using fast(2) by (simp add: size_inc_def)
  from assms False c have "\<exists>v q q'. w = Some v \<and>
            s' = set_consumer this (c_cur_index ?co) (cur_index_read_cnt ?co + 1)
                   (s\<lparr>queue_objs := (queue_objs s)[q := q']\<rparr>)"
    by (auto simp: Pop_def Let_def inc split: if_splits option.splits)
  then show ?thesis using fast by blast
qed

lemma Pop_sticky:
  assumes inv: "matrix_inv s" and ok: "sticky_ok s" and p: "Pop this s = Returned w s'"
  shows "sticky_ok s'"
proof -
  let ?co = "consumer_objs s ! this"
  from p have c: "this < length (consumer_objs s)"
    by (auto simp: Pop_def split: if_splits)
  from Pop_cases[OF p] show ?thesis
  proof
    assume "Pop_scan this s = Returned w s'"
    then show ?thesis by (rule Pop_scan_sticky[OF inv ok c])
  next
    assume "\<exists>v q q'. w = Some v \<and> cur_index_read_cnt ?co \<noteq> 0 \<and> cur_index_read_cnt ?co < 32 \<and>
            s' = set_consumer this (c_cur_index ?co) (cur_index_read_cnt ?co + 1)
                   (s\<lparr>queue_objs := (queue_objs s)[q := q']\<rparr>)"
    then obtain q q' where f: "cur_index_read_cnt ?co \<noteq> 0" "cur_index_read_cnt ?co < 32"
      and s': "s' = set_consumer this (c_cur_index ?co) (cur_index_read_cnt ?co + 1)
                   (s\<lparr>queue_objs := (queue_objs s)[q := q']\<rparr>)"
      by blast
    from sticky_okD[OF ok c f(1)] have "c_cur_index ?co < producer_count s" by simp
    then show ?thesis unfolding s' using f(2) by (intro sticky_ok_set_consumer[OF ok]) simp
  qed
qed

lemma reachable_sticky: "reachable s \<Longrightarrow> sticky_ok s"
proof (induction rule: reachable.induct)
  case (init maxp maxc n)
  show ?case by (simp add: sticky_ok_def DispatchQueue_def)
next
  case (register_consumer s r s')
  from RegisterConsumer_sticky[OF reachable_inv[OF register_consumer.hyps(1)]
      register_consumer.IH register_consumer.hyps(2)]
  show ?case .
next
  case (register_producer s r s')
  from RegisterProducer_sticky[OF reachable_inv[OF register_producer.hyps(1)]
      register_producer.IH register_producer.hyps(2)]
  show ?case .
next
  case (unregister_producer s outq u s')
  from UnregisterProducer_sticky[OF unregister_producer.IH unregister_producer.hyps(2)]
  show ?case .
next
  case (push s this v b s')
  from Push_sticky[OF push.IH push.hyps(2)] show ?case .
next
  case (push_idx s this idx v b s')
  from Push_idx_sticky[OF push_idx.IH push_idx.hyps(2)] show ?case .
next
  case (pop s this w s')
  from Pop_sticky[OF reachable_inv[OF pop.hyps(1)] pop.IH pop.hyps(2)] show ?case .
qed

lemma reachable_consumer_row:
  assumes r: "reachable s" and c: "this < length (consumer_objs s)"
  shows "length (c_queue_vec (consumer_objs s ! this)) = kMaxProducers s"
    and "\<forall>k q. k < length (c_queue_vec (consumer_objs s ! this)) \<longrightarrow>
           c_queue_vec (consumer_objs s ! this) ! k = Some q \<longrightarrow> q < length (queue_objs s)"
    and "\<forall>k<kMaxProducers s. (c_queue_vec (consumer_objs s ! this) ! k \<noteq> None) = (k < producer_count s)"
proof -
  from r have inv: "matrix_inv s" by (rule reachable_inv)
  from inv have t: "tables_ok s" by (simp add: matrix_inv_def)
  have cc: "this < consumer_count s" using t c by (simp add: tables_ok_def)
  have row: "c_queue_vec (consumer_objs s ! this) = consumer_row s this"
    using inv_rows(2)[OF inv cc] by (simp add: c_row_def)
  show l: "length (c_queue_vec (consumer_objs s ! this)) = kMaxProducers s"
    using inv_consumer_row(1)[OF inv cc] row by simp
  show w: "\<forall>k<kMaxProducers s. (c_queue_vec (consumer_objs s ! this) ! k \<noteq> None) = (k < producer_count s)"
    using inv_consumer_row(2)[OF inv cc] row by simp
  show "\<forall>k q. k < length (c_queue_vec (consumer_objs s ! this)) \<longrightarrow>
           c_queue_vec (consumer_objs s ! this) ! k = Some q \<longrightarrow> q < length (queue_objs s)"
  proof (intro allI impI)
    fix k q assume k: "k < length (c_queue_vec (consumer_objs s ! this))"
      and q: "c_queue_vec (consumer_objs s ! this) ! k = Some q"
    have kp: "k < producer_count s" using w k q l by auto
    from inv_channel[OF inv kp cc] obtain q0 where "consumer_row s this ! k = Some q0"
      "links s q0 k this" by auto
    then show "q < length (queue_objs s)" using q row by (auto simp: links_def)
  qed
qed

lemma reachable_sticky_channel:
  assumes r: "reachable s" and c: "this < length (consumer_objs s)"
    and n: "cur_index_read_cnt (consumer_objs s ! this) \<noteq> 0"
  shows "cur_index_read_cnt (consumer_objs s ! this) \<le> 32 \<and>
         c_cur_index (consumer_objs s ! this) < length (c_queue_vec (consumer_objs s ! this)) \<and>
         (\<exists>q<length (queue_objs s).
            c_queue_vec (consumer_objs s ! this) ! c_cur_index (consumer_objs s ! this) = Some q)"
proof -
  let ?cur = "c_cur_index (consumer_objs s ! this)"
  let ?row = "c_queue_vec (consumer_objs s ! this)"
  from r have inv: "matrix_inv s" by (rule reachable_inv)
  from sticky_okD[OF reachable_sticky[OF r] c n]
  have cur: "?cur < producer_count s" and le: "cur_index_read_cnt (consumer_objs s ! this) \<le> 32"
    by simp_all
  note rr = reachable_consumer_row[OF r c]
  have k: "?cur < kMaxProducers s" using cur matrix_inv_bounds(1)[OF inv] by simp
  then have "?row ! ?cur \<noteq> None" using rr(3) cur by simp
  then obtain q where q: "?row ! ?cur = Some q" by auto
  then have "q < length (queue_objs s)" using rr(2) k rr(1) by auto
  then show ?thesis using le k rr(1) q by simp
qed

section \<open>The claims\<close>

subsection \<open>C1\<close>

text \<open>
  C1. In every store reachable from a freshly constructed dispatch queue, for every
  producer slot \<open>p\<close> and consumer slot \<open>c\<close> below the counts, one channel \<open>q\<close> is
  referenced by producer \<open>p\<close>'s row at index \<open>c\<close> and by consumer \<open>c\<close>'s row at index
  \<open>p\<close>, and it is the only channel that links the pair. Every producer row has exactly
  \<open>consumer_count\<close> filled entries, the first ones, and every consumer row exactly
  \<open>producer_count\<close>.
\<close>

theorem C1_every_pair_wired_once:
  assumes "reachable s"
  shows "(\<forall>p<producer_count s. \<forall>c<consumer_count s.
            \<exists>q. producer_row s p ! c = Some q \<and> consumer_row s c ! p = Some q \<and>
                (\<forall>q'. links s q' p c \<longleftrightarrow> q' = q)) \<and>
         (\<forall>p<producer_count s.
            wired_count (producer_row s p) = consumer_count s \<and>
            (\<forall>i<length (producer_row s p). (producer_row s p ! i \<noteq> None) = (i < consumer_count s))) \<and>
         (\<forall>c<consumer_count s.
            wired_count (consumer_row s c) = producer_count s \<and>
            (\<forall>i<length (consumer_row s c). (consumer_row s c ! i \<noteq> None) = (i < producer_count s)))"
proof -
  from assms have inv: "matrix_inv s" by (rule reachable_inv)
  note pk = matrix_inv_bounds(1)[OF inv] and ck = matrix_inv_bounds(2)[OF inv]
  have a: "\<forall>p<producer_count s. \<forall>c<consumer_count s.
            \<exists>q. producer_row s p ! c = Some q \<and> consumer_row s c ! p = Some q \<and>
                (\<forall>q'. links s q' p c \<longleftrightarrow> q' = q)"
    using inv_channel[OF inv] by blast
  have b: "wired_count (producer_row s p) = consumer_count s \<and>
            (\<forall>i<length (producer_row s p). (producer_row s p ! i \<noteq> None) = (i < consumer_count s))"
    if p: "p < producer_count s" for p
  proof -
    have c: "\<forall>i<length (producer_row s p). (producer_row s p ! i \<noteq> None) = (i < consumer_count s)"
      using inv_producer_row[OF inv p] by simp
    moreover have "consumer_count s \<le> length (producer_row s p)"
      using inv_producer_row(1)[OF inv p] ck by simp
    ultimately show ?thesis using wired_count_prefix by blast
  qed
  have c: "wired_count (consumer_row s c) = producer_count s \<and>
            (\<forall>i<length (consumer_row s c). (consumer_row s c ! i \<noteq> None) = (i < producer_count s))"
    if c: "c < consumer_count s" for c
  proof -
    have "\<forall>i<length (consumer_row s c). (consumer_row s c ! i \<noteq> None) = (i < producer_count s)"
      using inv_consumer_row[OF inv c] by simp
    moreover have "producer_count s \<le> length (consumer_row s c)"
      using inv_consumer_row(1)[OF inv c] pk by simp
    ultimately show ?thesis using wired_count_prefix by blast
  qed
  show ?thesis using a b c by blast
qed

text \<open>C1 at the store \<open>demo22\<close>, for producer slot 1 and consumer slot 0.\<close>

theorem C1_every_pair_wired_once_witness:
  "reachable demo22 \<and> producer_count demo22 = 2 \<and> consumer_count demo22 = 2 \<and>
   (\<exists>q. producer_row demo22 1 ! 0 = Some q \<and> consumer_row demo22 0 ! 1 = Some q \<and>
        (\<forall>q'. links demo22 q' 1 0 \<longleftrightarrow> q' = q)) \<and>
   wired_count (producer_row demo22 1) = 2 \<and> wired_count (consumer_row demo22 0) = 2"
proof -
  have c: "producer_count demo22 = 2" "consumer_count demo22 = 2"
    by (simp_all add: demo22_eq)
  note th = C1_every_pair_wired_once[OF demo22_reachable, unfolded c]
  from th have "\<forall>p<2. \<forall>c<2.
            \<exists>q. producer_row demo22 p ! c = Some q \<and> consumer_row demo22 c ! p = Some q \<and>
                (\<forall>q'. links demo22 q' p c \<longleftrightarrow> q' = q)"
    by (rule conjunct1)
  then have 1: "\<exists>q. producer_row demo22 1 ! 0 = Some q \<and> consumer_row demo22 0 ! 1 = Some q \<and>
        (\<forall>q'. links demo22 q' 1 0 \<longleftrightarrow> q' = q)"
    by simp
  from th have 2: "wired_count (producer_row demo22 1) = 2" by simp
  from th have 3: "wired_count (consumer_row demo22 0) = 2" by simp
  show ?thesis using demo22_reachable c 1 2 3 by simp
qed

subsection \<open>C2\<close>

text \<open>
  C2. For an active handle whose row has its full length and refers to allocated channels
  only, and whose cursor can be incremented without wrapping: if \<open>i\<close> is the first index in
  the scan order whose channel has room, then \<open>Push\<close> returns true, and the store it
  leaves is the old one with the value appended to the channel at row index \<open>i\<close> and
  with \<open>i\<close> in the field \<open>p_cur_index\<close> of the handle; no other channel, no other
  handle and no other field has changed. The row need not be filled contiguously for this.
\<close>

theorem C2_push_takes_first_accepting:
  assumes "this < length (producer_objs s)"
    and "is_registered (producer_objs s ! this)"
    and "length (p_queue_vec (producer_objs s ! this)) = kMaxConsumers s"
    and "\<forall>k q. k < length (p_queue_vec (producer_objs s ! this)) \<longrightarrow>
            p_queue_vec (producer_objs s ! this) ! k = Some q \<longrightarrow> q < length (queue_objs s)"
    and "p_cur_index (producer_objs s ! this) + 1 < 2 ^ 64"
    and "find (answers (Queue_Push v) (queue_objs s) (p_queue_vec (producer_objs s ! this)))
           (scan_order (p_queue_vec (producer_objs s ! this))
              (p_cur_index (producer_objs s ! this))) = Some i"
  shows "\<exists>q s'. p_queue_vec (producer_objs s ! this) ! i = Some q \<and>
           q < length (queue_objs s) \<and>
           length (q_items (queue_objs s ! q)) < q_capacity (queue_objs s ! q) \<and>
           Push this v s = Returned True s' \<and>
           p_cur_index (producer_objs s' ! this) = i \<and>
           q_items (queue_objs s' ! q) = q_items (queue_objs s ! q) @ [v] \<and>
           s' = s\<lparr>producer_objs :=
                     (producer_objs s)[this := (producer_objs s ! this)\<lparr>p_cur_index := i\<rparr>],
                   queue_objs :=
                     (queue_objs s)
                       [q := (queue_objs s ! q)\<lparr>q_items := q_items (queue_objs s ! q) @ [v]\<rparr>]\<rparr>"
proof -
  let ?pr = "producer_objs s ! this"
  let ?row = "p_queue_vec ?pr" and ?cur = "p_cur_index ?pr" and ?heap = "queue_objs s"
  let ?P = "answers (Queue_Push v) ?heap ?row"
  let ?first = "takeWhile (wired_at ?row) [?cur + 1 ..< kMaxConsumers s]"
  let ?second = "takeWhile (wired_at ?row) [0 ..< ?cur + 1]"
  have inc: "size_inc ?cur = ?cur + 1" using assms(5) by (simp add: size_inc_def)
  have f: "(case find ?P ?first of Some x \<Rightarrow> Some x | None \<Rightarrow> find ?P ?second) = Some i"
    using assms(6) unfolding scan_order_def find_append_first assms(3) .
  have "\<exists>q q'. ?row ! i = Some q \<and> i < length ?row \<and> Queue_Push v (?heap ! q) = Some q' \<and>
          Push this v s =
            Returned True (set_p_cur_index this i (s\<lparr>queue_objs := ?heap[q := q']\<rparr>))"
  proof (cases "find ?P ?first")
    case (Some j)
    then have "j = i" using f by simp
    from scan_tail_hit[OF Some[unfolded this] assms(4)] obtain q q'
      where h: "?row ! i = Some q" "Queue_Push v (?heap ! q) = Some q'"
        "scan_tail (kMaxConsumers s) ?row ?heap (Queue_Push v) (?cur + 1) = Hit i q q'"
      by blast
    from scan_tail_Hit_at[OF h(3)] have "i < length ?row" by simp
    then show ?thesis using assms(1,2) h by (simp add: Push_def Let_def inc)
  next
    case None
    then have "find ?P ?second = Some i" using f by simp
    from scan_head_hit[OF this assms(4)] obtain q q'
      where h: "?row ! i = Some q" "Queue_Push v (?heap ! q) = Some q'"
        "scan_head ?row ?heap (Queue_Push v) ?cur 0 = Hit i q q'"
      by blast
    from scan_head_Hit_at[OF h(3)] have i: "i < length ?row" by simp
    from scan_tail_miss[OF None assms(4)] assms(3) obtain j
      where "scan_tail (kMaxConsumers s) ?row ?heap (Queue_Push v) (?cur + 1) = Miss j"
      by auto
    then show ?thesis using assms(1,2) h i by (simp add: Push_def Let_def inc)
  qed
  then obtain q q' where r: "?row ! i = Some q" "i < length ?row"
    "Queue_Push v (?heap ! q) = Some q'"
    "Push this v s = Returned True (set_p_cur_index this i (s\<lparr>queue_objs := ?heap[q := q']\<rparr>))"
    by blast
  have q: "q < length ?heap" using assms(4) r(1,2) by blast
  have room: "length (q_items (?heap ! q)) < q_capacity (?heap ! q)"
    using r(3) by (simp add: Queue_Push_def split: if_splits)
  note q' = Queue_Push_Some[OF r(3)]
  let ?s' = "s\<lparr>producer_objs := (producer_objs s)[this := ?pr\<lparr>p_cur_index := i\<rparr>],
               queue_objs := ?heap[q := (?heap ! q)\<lparr>q_items := q_items (?heap ! q) @ [v]\<rparr>]\<rparr>"
  have 1: "Push this v s = Returned True ?s'"
    using r(4) q' by (simp add: set_p_cur_index_def)
  have 2: "p_cur_index (producer_objs ?s' ! this) = i" using assms(1) by simp
  have 3: "q_items (queue_objs ?s' ! q) = q_items (?heap ! q) @ [v]" using q by simp
  show ?thesis using r(1) q room 1 2 3 by blast
qed

text \<open>
  C2 at \<open>demo22_pushed\<close>: the scan order of producer 0 is 1, 0; the channel at index 1
  has room and takes the value 8, and the cursor of the handle, which was 0, is 1.
\<close>

theorem C2_push_takes_first_accepting_witness:
  "(0::nat) < length (producer_objs demo22_pushed) \<and>
   is_registered (producer_objs demo22_pushed ! 0) \<and>
   length (p_queue_vec (producer_objs demo22_pushed ! 0)) = kMaxConsumers demo22_pushed \<and>
   p_cur_index (producer_objs demo22_pushed ! 0) = 0 \<and>
   scan_order (p_queue_vec (producer_objs demo22_pushed ! 0))
     (p_cur_index (producer_objs demo22_pushed ! 0)) = [1, 0] \<and>
   (\<exists>s'. Push 0 8 demo22_pushed = Returned True s' \<and>
      p_cur_index (producer_objs s' ! 0) = 1 \<and>
      q_items (queue_objs s' ! 1) = [8] \<and>
      s' = demo22_pushed
             \<lparr>producer_objs :=
                (producer_objs demo22_pushed)
                  [0 := (producer_objs demo22_pushed ! 0)\<lparr>p_cur_index := 1\<rparr>],
              queue_objs :=
                (queue_objs demo22_pushed)[1 := \<lparr>q_capacity = 1, q_items = [8]\<rparr>]\<rparr>)"
proof -
  have f: "(0::nat) < length (producer_objs demo22_pushed)"
    "is_registered (producer_objs demo22_pushed ! 0)"
    "length (p_queue_vec (producer_objs demo22_pushed ! 0)) = kMaxConsumers demo22_pushed"
    "p_cur_index (producer_objs demo22_pushed ! 0) + 1 < 2 ^ 64"
    by (simp_all add: demo22_pushed_eq demo22_eq kMaxConsumers_def)
  have row: "p_queue_vec (producer_objs demo22_pushed ! 0) = [Some 0, Some 1]"
    "p_cur_index (producer_objs demo22_pushed ! 0) = 0"
    "queue_objs demo22_pushed ! Suc 0 = \<lparr>q_capacity = 1, q_items = []\<rparr>"
    by (simp_all add: demo22_pushed_eq demo22_eq)
  have v: "\<forall>k q. k < length (p_queue_vec (producer_objs demo22_pushed ! 0)) \<longrightarrow>
            p_queue_vec (producer_objs demo22_pushed ! 0) ! k = Some q \<longrightarrow>
            q < length (queue_objs demo22_pushed)"
    by (auto simp: row demo22_pushed_eq less_Suc_eq)
  have o: "scan_order (p_queue_vec (producer_objs demo22_pushed ! 0))
     (p_cur_index (producer_objs demo22_pushed ! 0)) = [1, 0]"
    by (simp add: row scan_order_def wired_at_def upt_conv_Cons)
  have fi: "find (answers (Queue_Push 8) (queue_objs demo22_pushed)
              (p_queue_vec (producer_objs demo22_pushed ! 0)))
           (scan_order (p_queue_vec (producer_objs demo22_pushed ! 0))
              (p_cur_index (producer_objs demo22_pushed ! 0))) = Some 1"
    unfolding o by (simp add: row answers_def Queue_Push_def demo22_pushed_eq)
  from C2_push_takes_first_accepting[OF f(1,2,3) v f(4) fi]
  show ?thesis using f o by (simp add: row)
qed

subsection \<open>C3\<close>

text \<open>
  C3 says that a fan-out push with every wired channel full, and a pop with every wired
  channel empty, return false, and that every row access is below the length of the row.
  The code does not do this when every entry of the row is wired. Both tables of
  \<open>demo22\<close> are full, so every row is filled to its end. Consumer 0 has its initial
  cursor and both its channels are empty: its pop reads \<^verbatim>\<open>queue_vec_[2]\<close>, outside the
  row. In \<open>demo22_full\<close> both channels of producer 0 are full and its third push has
  returned false, leaving the cursor at 2: its next push reads \<^verbatim>\<open>queue_vec_[2]\<close>,
  outside the row. The second loop of both functions compares the index with
  \<^verbatim>\<open>last_index\<close> only, where the first loop compares it with the length of the row.
  The lemmas \<open>Push_nothing_accepts\<close> and \<open>Pop_scan_nothing_yields\<close> above give the
  general condition: false is returned when the row has an empty entry or the cursor is
  inside the row.
\<close>

theorem C3_scan_reads_past_full_row:
  "reachable demo22 \<and>
   length (c_queue_vec (consumer_objs demo22 ! 0)) = 2 \<and>
   list_all (\<lambda>e. case e of None \<Rightarrow> False | Some q \<Rightarrow> Queue_Pop (queue_objs demo22 ! q) = None)
     (c_queue_vec (consumer_objs demo22 ! 0)) \<and>
   Pop 0 demo22 = Fault out_of_bounds \<and>
   reachable demo22_full \<and> is_registered (producer_objs demo22_full ! 0) \<and>
   length (p_queue_vec (producer_objs demo22_full ! 0)) = 2 \<and>
   list_all (\<lambda>e. case e of None \<Rightarrow> False | Some q \<Rightarrow> Queue_Push 10 (queue_objs demo22_full ! q) = None)
     (p_queue_vec (producer_objs demo22_full ! 0)) \<and>
   Push 0 9 (after (Push 0 8) (after (Push 0 7) demo22)) = Returned False demo22_full \<and>
   Push 0 10 demo22_full = Fault out_of_bounds"
proof -
  have 1: "length (c_queue_vec (consumer_objs demo22 ! 0)) = 2"
    "list_all (\<lambda>e. case e of None \<Rightarrow> False | Some q \<Rightarrow> Queue_Pop (queue_objs demo22 ! q) = None)
       (c_queue_vec (consumer_objs demo22 ! 0))"
    by (simp_all add: demo22_eq Queue_Pop_def)
  have 2: "Pop 0 demo22 = Fault out_of_bounds"
    by (simp add: demo22_eq model_defs)
  have 3: "is_registered (producer_objs demo22_full ! 0)"
    "length (p_queue_vec (producer_objs demo22_full ! 0)) = 2"
    "list_all (\<lambda>e. case e of None \<Rightarrow> False | Some q \<Rightarrow> Queue_Push 10 (queue_objs demo22_full ! q) = None)
       (p_queue_vec (producer_objs demo22_full ! 0))"
    by (simp_all add: demo22_full_eq demo22_eq Queue_Push_def)
  have 4: "Push 0 9 (after (Push 0 8) (after (Push 0 7) demo22)) = Returned False demo22_full"
    by (simp add: demo22_full_eq demo22_eq model_defs)
  have 5: "Push 0 10 demo22_full = Fault out_of_bounds"
    by (simp add: demo22_full_eq demo22_eq model_defs)
  show ?thesis using demo22_reachable demo22_full_reachable 1 2 3 4 5 by simp
qed

subsection \<open>C4\<close>

text \<open>
  C4. For a handle that points to a consumer object, with sticky counter \<open>cnt\<close>, cursor
  \<open>cur\<close> and row \<open>row\<close>:

  \<^item> when \<open>1 \<le> cnt \<le> 31\<close> and the row entry at \<open>cur\<close> is a channel, \<open>Pop\<close> first pops the
    channel at row index \<open>cur\<close>; on success it returns the value and leaves the store in
    which that channel lost its oldest value and the counter of the handle is \<open>cnt + 1\<close>,
    with the cursor and everything else as before; on failure it is the scan;
  \<^item> when \<open>cnt\<close> is 0 or at least 32, \<open>Pop\<close> is the scan at once;
  \<^item> the scan, on a row of full length that refers to allocated channels only and with a
    cursor that can be incremented without wrapping, pops the channel at the first index
    \<open>i\<close> of the scan order whose channel holds a value, and leaves the store in which
    that channel lost its oldest value, the cursor of the handle is \<open>i\<close> and its counter
    is 1; when no channel in the scan order holds a value and the second half of the scan
    ends inside the row, it returns nothing and leaves the counter at 0 and the cursor at
    the index where the second half ended;
  \<^item> whatever the row, a scan that returns leaves the counter at 1 after a success and at
    0 after a failure, and after a success the cursor is the row index of the channel the
    value was popped from;
  \<^item> along a run of \<open>n\<close> sticky hits the cursor and the row stay as they are and the
    counter grows by \<open>n\<close>, so every hit pops the channel at the same row index, and
    \<open>n \<le> 32 - cnt\<close>;
  \<^item> after a successful scan at most 31 sticky hits follow, all at the index of the scan's
    hit: 32 pops in a row from one index, and after them the next \<open>Pop\<close> is the scan;
  \<^item> in every reachable store the row has its full length and refers to allocated
    channels only, the counter is at most 32, and while it is not 0 the row entry at the
    cursor is an allocated channel.
\<close>

theorem C4_sticky_counter:
  assumes "this < length (consumer_objs s)"
  shows "(\<forall>q. 1 \<le> cur_index_read_cnt (consumer_objs s ! this) \<longrightarrow>
              cur_index_read_cnt (consumer_objs s ! this) \<le> 31 \<longrightarrow>
              c_cur_index (consumer_objs s ! this) < length (c_queue_vec (consumer_objs s ! this)) \<longrightarrow>
              c_queue_vec (consumer_objs s ! this) ! c_cur_index (consumer_objs s ! this) = Some q \<longrightarrow>
              q < length (queue_objs s) \<longrightarrow>
              Pop this s =
                (case Queue_Pop (queue_objs s ! q) of
                   Some (v, q') \<Rightarrow>
                     Returned (Some v)
                       (s\<lparr>consumer_objs :=
                            (consumer_objs s)
                              [this := (consumer_objs s ! this)
                                 \<lparr>cur_index_read_cnt :=
                                    cur_index_read_cnt (consumer_objs s ! this) + 1\<rparr>],
                          queue_objs := (queue_objs s)[q := q']\<rparr>)
                 | None \<Rightarrow> Pop_scan this s)) \<and>
         (cur_index_read_cnt (consumer_objs s ! this) = 0 \<or>
          32 \<le> cur_index_read_cnt (consumer_objs s ! this) \<longrightarrow>
            Pop this s = Pop_scan this s) \<and>
         (length (c_queue_vec (consumer_objs s ! this)) = kMaxProducers s \<longrightarrow>
          (\<forall>k q. k < length (c_queue_vec (consumer_objs s ! this)) \<longrightarrow>
             c_queue_vec (consumer_objs s ! this) ! k = Some q \<longrightarrow> q < length (queue_objs s)) \<longrightarrow>
          c_cur_index (consumer_objs s ! this) + 1 < 2 ^ 64 \<longrightarrow>
            (\<forall>i. find (answers Queue_Pop (queue_objs s) (c_queue_vec (consumer_objs s ! this)))
                   (scan_order (c_queue_vec (consumer_objs s ! this))
                      (c_cur_index (consumer_objs s ! this))) = Some i \<longrightarrow>
                 (\<exists>q v q'. c_queue_vec (consumer_objs s ! this) ! i = Some q \<and>
                    Queue_Pop (queue_objs s ! q) = Some (v, q') \<and>
                    Pop_scan this s =
                      Returned (Some v)
                        (s\<lparr>consumer_objs :=
                             (consumer_objs s)
                               [this := (consumer_objs s ! this)
                                  \<lparr>c_cur_index := i, cur_index_read_cnt := 1\<rparr>],
                           queue_objs := (queue_objs s)[q := q']\<rparr>))) \<and>
            (find (answers Queue_Pop (queue_objs s) (c_queue_vec (consumer_objs s ! this)))
               (scan_order (c_queue_vec (consumer_objs s ! this))
                  (c_cur_index (consumer_objs s ! this))) = None \<longrightarrow>
             (c_cur_index (consumer_objs s ! this) < length (c_queue_vec (consumer_objs s ! this)) \<or>
              (\<exists>u<length (c_queue_vec (consumer_objs s ! this)).
                 c_queue_vec (consumer_objs s ! this) ! u = None)) \<longrightarrow>
               Pop_scan this s =
                 Returned None
                   (s\<lparr>consumer_objs :=
                        (consumer_objs s)
                          [this := (consumer_objs s ! this)
                             \<lparr>c_cur_index :=
                                length (takeWhile (wired_at (c_queue_vec (consumer_objs s ! this)))
                                  [0 ..< c_cur_index (consumer_objs s ! this) + 1]),
                              cur_index_read_cnt := 0\<rparr>]\<rparr>))) \<and>
         (\<forall>w s'. Pop_scan this s = Returned w s' \<longrightarrow>
            cur_index_read_cnt (consumer_objs s' ! this) = (if w = None then 0 else 1)) \<and>
         (\<forall>v s'. Pop_scan this s = Returned (Some v) s' \<longrightarrow>
            (\<exists>q q'. c_cur_index (consumer_objs s' ! this) < length (c_queue_vec (consumer_objs s ! this)) \<and>
               c_queue_vec (consumer_objs s ! this) ! c_cur_index (consumer_objs s' ! this) = Some q \<and>
               q < length (queue_objs s) \<and>
               Queue_Pop (queue_objs s ! q) = Some (v, q') \<and>
               queue_objs s' = (queue_objs s)[q := q'] \<and>
               c_queue_vec (consumer_objs s' ! this) = c_queue_vec (consumer_objs s ! this))) \<and>
         (\<forall>n. sticky_run n this s \<longrightarrow>
            n \<le> 32 - cur_index_read_cnt (consumer_objs s ! this) \<and>
            c_cur_index (consumer_objs (pops n this s) ! this) = c_cur_index (consumer_objs s ! this) \<and>
            c_queue_vec (consumer_objs (pops n this s) ! this) = c_queue_vec (consumer_objs s ! this) \<and>
            cur_index_read_cnt (consumer_objs (pops n this s) ! this) =
              cur_index_read_cnt (consumer_objs s ! this) + n) \<and>
         (\<forall>n v s'. Pop_scan this s = Returned (Some v) s' \<longrightarrow> sticky_run n this s' \<longrightarrow>
            n \<le> 31 \<and>
            c_cur_index (consumer_objs (pops n this s') ! this) = c_cur_index (consumer_objs s' ! this) \<and>
            (n = 31 \<longrightarrow> Pop this (pops n this s') = Pop_scan this (pops n this s'))) \<and>
         (reachable s \<longrightarrow>
            length (c_queue_vec (consumer_objs s ! this)) = kMaxProducers s \<and>
            (\<forall>k q. k < length (c_queue_vec (consumer_objs s ! this)) \<longrightarrow>
               c_queue_vec (consumer_objs s ! this) ! k = Some q \<longrightarrow> q < length (queue_objs s)) \<and>
            cur_index_read_cnt (consumer_objs s ! this) \<le> 32 \<and>
            (cur_index_read_cnt (consumer_objs s ! this) \<noteq> 0 \<longrightarrow>
               c_cur_index (consumer_objs s ! this) < length (c_queue_vec (consumer_objs s ! this)) \<and>
               (\<exists>q<length (queue_objs s).
                  c_queue_vec (consumer_objs s ! this) ! c_cur_index (consumer_objs s ! this) = Some q)))"
  (is "?A \<and> ?B \<and> ?C \<and> ?D \<and> ?E \<and> ?F \<and> ?G \<and> ?H")
proof -
  let ?co = "consumer_objs s ! this"
  have b_gen: "Pop this t = Pop_scan this t"
    if "this < length (consumer_objs t)"
      "cur_index_read_cnt (consumer_objs t ! this) = 0 \<or> 32 \<le> cur_index_read_cnt (consumer_objs t ! this)"
    for t :: "'a state"
    using that by (auto simp: Pop_def Let_def kMaxStickyReadCnt_def)
  have a: ?A
  proof (intro allI impI)
    fix q
    assume h: "1 \<le> cur_index_read_cnt ?co" "cur_index_read_cnt ?co \<le> 31"
      "c_cur_index ?co < length (c_queue_vec ?co)"
      "c_queue_vec ?co ! c_cur_index ?co = Some q" "q < length (queue_objs s)"
    have inc: "size_inc (cur_index_read_cnt ?co) = cur_index_read_cnt ?co + 1"
      using h(2) by (simp add: size_inc_def)
    have same: "?co\<lparr>c_cur_index := c_cur_index ?co, cur_index_read_cnt := n\<rparr> =
                ?co\<lparr>cur_index_read_cnt := n\<rparr>" for n
      by simp
    show "Pop this s =
            (case Queue_Pop (queue_objs s ! q) of
               Some (v, q') \<Rightarrow>
                 Returned (Some v)
                   (s\<lparr>consumer_objs :=
                        (consumer_objs s)
                          [this := ?co\<lparr>cur_index_read_cnt := cur_index_read_cnt ?co + 1\<rparr>],
                      queue_objs := (queue_objs s)[q := q']\<rparr>)
             | None \<Rightarrow> Pop_scan this s)"
      using assms h
      by (simp add: Pop_def Let_def kMaxStickyReadCnt_def inc set_consumer_def same
          split: option.splits)
  qed
  have b: ?B using b_gen[OF assms] by blast
  have c: ?C
  proof (intro impI conjI allI)
    fix i
    assume h: "length (c_queue_vec ?co) = kMaxProducers s"
      "\<forall>k q. k < length (c_queue_vec ?co) \<longrightarrow> c_queue_vec ?co ! k = Some q \<longrightarrow>
         q < length (queue_objs s)"
      "c_cur_index ?co + 1 < 2 ^ 64"
      "find (answers Queue_Pop (queue_objs s) (c_queue_vec ?co))
         (scan_order (c_queue_vec ?co) (c_cur_index ?co)) = Some i"
    from Pop_scan_hit[OF h] obtain q v q'
      where x: "c_queue_vec ?co ! i = Some q" "Queue_Pop (queue_objs s ! q) = Some (v, q')"
        "Pop_scan this s =
           Returned (Some v) (set_consumer this i 1 (s\<lparr>queue_objs := (queue_objs s)[q := q']\<rparr>))"
      by blast
    have "Pop_scan this s =
            Returned (Some v)
              (s\<lparr>consumer_objs :=
                   (consumer_objs s)[this := ?co\<lparr>c_cur_index := i, cur_index_read_cnt := 1\<rparr>],
                 queue_objs := (queue_objs s)[q := q']\<rparr>)"
      using x(3) by (simp add: set_consumer_def)
    then show "\<exists>q v q'. c_queue_vec ?co ! i = Some q \<and>
                 Queue_Pop (queue_objs s ! q) = Some (v, q') \<and>
                 Pop_scan this s =
                   Returned (Some v)
                     (s\<lparr>consumer_objs :=
                          (consumer_objs s)
                            [this := ?co\<lparr>c_cur_index := i, cur_index_read_cnt := 1\<rparr>],
                        queue_objs := (queue_objs s)[q := q']\<rparr>)"
      using x(1,2) by blast
  next
    assume h: "length (c_queue_vec ?co) = kMaxProducers s"
      "\<forall>k q. k < length (c_queue_vec ?co) \<longrightarrow> c_queue_vec ?co ! k = Some q \<longrightarrow>
         q < length (queue_objs s)"
      "c_cur_index ?co + 1 < 2 ^ 64"
      "find (answers Queue_Pop (queue_objs s) (c_queue_vec ?co))
         (scan_order (c_queue_vec ?co) (c_cur_index ?co)) = None"
      "c_cur_index ?co < length (c_queue_vec ?co) \<or>
       (\<exists>u<length (c_queue_vec ?co). c_queue_vec ?co ! u = None)"
    from Pop_scan_miss[OF h]
    show "Pop_scan this s =
            Returned None
              (s\<lparr>consumer_objs :=
                   (consumer_objs s)
                     [this := ?co
                        \<lparr>c_cur_index :=
                           length (takeWhile (wired_at (c_queue_vec ?co)) [0 ..< c_cur_index ?co + 1]),
                         cur_index_read_cnt := 0\<rparr>]\<rparr>)"
      by (simp add: set_consumer_def)
  qed
  have d: ?D using Pop_scan_counter[OF assms] by blast
  have e: ?E using Pop_scan_cursor[OF assms] by blast
  have f: ?F
  proof (intro allI impI)
    fix n assume r: "sticky_run n this s"
    from sticky_run_bound[OF assms r] sticky_run_pops[OF assms r]
    show "n \<le> 32 - cur_index_read_cnt ?co \<and>
          c_cur_index (consumer_objs (pops n this s) ! this) = c_cur_index ?co \<and>
          c_queue_vec (consumer_objs (pops n this s) ! this) = c_queue_vec ?co \<and>
          cur_index_read_cnt (consumer_objs (pops n this s) ! this) = cur_index_read_cnt ?co + n"
      by simp
  qed
  have g: ?G
  proof (intro allI impI)
    fix n v s'
    assume p: "Pop_scan this s = Returned (Some v) s'" and r: "sticky_run n this s'"
    from Pop_scan_cases[OF p] obtain i q q'
      where "s' = set_consumer this i 1 (s\<lparr>queue_objs := (queue_objs s)[q := q']\<rparr>)"
      by auto
    then have l: "this < length (consumer_objs s')" using assms by (simp add: set_consumer_def)
    have one: "cur_index_read_cnt (consumer_objs s' ! this) = 1"
      using Pop_scan_counter[OF assms p] by simp
    note sp = sticky_run_pops[OF l r]
    have n: "n \<le> 31" using sticky_run_bound[OF l r] one by simp
    have "Pop this (pops n this s') = Pop_scan this (pops n this s')" if "n = 31"
    proof -
      have "cur_index_read_cnt (consumer_objs (pops n this s') ! this) = 32"
        using sp one that by simp
      then show ?thesis using b_gen[of "pops n this s'"] sp by simp
    qed
    then show "n \<le> 31 \<and>
          c_cur_index (consumer_objs (pops n this s') ! this) = c_cur_index (consumer_objs s' ! this) \<and>
          (n = 31 \<longrightarrow> Pop this (pops n this s') = Pop_scan this (pops n this s'))"
      using n sp by simp
  qed
  have h: ?H
  proof (intro impI)
    assume r: "reachable s"
    note rr = reachable_consumer_row[OF r assms]
    have le: "cur_index_read_cnt ?co \<le> 32"
      using reachable_sticky_channel[OF r assms] by (cases "cur_index_read_cnt ?co = 0") simp_all
    show "length (c_queue_vec ?co) = kMaxProducers s \<and>
          (\<forall>k q. k < length (c_queue_vec ?co) \<longrightarrow> c_queue_vec ?co ! k = Some q \<longrightarrow>
             q < length (queue_objs s)) \<and>
          cur_index_read_cnt ?co \<le> 32 \<and>
          (cur_index_read_cnt ?co \<noteq> 0 \<longrightarrow>
             c_cur_index ?co < length (c_queue_vec ?co) \<and>
             (\<exists>q<length (queue_objs s). c_queue_vec ?co ! c_cur_index ?co = Some q))"
      using rr(1,2) le reachable_sticky_channel[OF r assms] by blast
  qed
  show ?thesis using a b c d e f g h by (intro conjI)
qed

text \<open>
  C4 at \<open>demo_feeds\<close>, where the consumer has cursor 1 and counter 1, the channel at row
  index 0 holds 11 and the channel at row index 1 holds 9 and 10. The next \<open>Pop\<close> is a
  sticky hit: it returns 9 from row index 1, keeps the cursor at 1 and sets the counter to
  2, although the scan, whose order is 0, 1, would have returned 11 from row index 0 and
  set the cursor to 0. Two sticky hits follow each other, a third does not.
\<close>

theorem C4_sticky_counter_witness:
  "(0::nat) < length (consumer_objs demo_feeds) \<and>
   reachable demo_feeds \<and>
   cur_index_read_cnt (consumer_objs demo_feeds ! 0) = 1 \<and>
   c_cur_index (consumer_objs demo_feeds ! 0) = 1 \<and>
   c_queue_vec (consumer_objs demo_feeds ! 0) = [Some 0, Some 1, None] \<and>
   queue_objs demo_feeds =
     [\<lparr>q_capacity = 3, q_items = [11]\<rparr>, \<lparr>q_capacity = 3, q_items = [9, 10]\<rparr>] \<and>
   Pop 0 demo_feeds =
     Returned (Some 9)
       (demo_feeds
          \<lparr>consumer_objs :=
             [\<lparr>consumer_index = 0, c_cur_index = 1, cur_index_read_cnt = 2,
               c_queue_vec = [Some 0, Some 1, None]\<rparr>],
           queue_objs :=
             [\<lparr>q_capacity = 3, q_items = [11]\<rparr>, \<lparr>q_capacity = 3, q_items = [10]\<rparr>]\<rparr>) \<and>
   scan_order (c_queue_vec (consumer_objs demo_feeds ! 0))
     (c_cur_index (consumer_objs demo_feeds ! 0)) = [0, 1] \<and>
   Pop_scan 0 demo_feeds =
     Returned (Some 11)
       (demo_feeds
          \<lparr>consumer_objs :=
             [\<lparr>consumer_index = 0, c_cur_index = 0, cur_index_read_cnt = 1,
               c_queue_vec = [Some 0, Some 1, None]\<rparr>],
           queue_objs :=
             [\<lparr>q_capacity = 3, q_items = []\<rparr>, \<lparr>q_capacity = 3, q_items = [9, 10]\<rparr>]\<rparr>) \<and>
   sticky_run 2 0 demo_feeds \<and> \<not> sticky_run 3 0 demo_feeds \<and>
   c_cur_index (consumer_objs (pops 2 0 demo_feeds) ! 0) = 1 \<and>
   cur_index_read_cnt (consumer_objs (pops 2 0 demo_feeds) ! 0) = 3"
proof -
  let ?co = "consumer_objs demo_feeds ! 0"
  have f: "(0::nat) < length (consumer_objs demo_feeds)"
    "cur_index_read_cnt ?co = 1" "c_cur_index ?co = 1"
    "c_queue_vec ?co = [Some 0, Some 1, None]"
    "queue_objs demo_feeds =
       [\<lparr>q_capacity = 3, q_items = [11]\<rparr>, \<lparr>q_capacity = 3, q_items = [9, 10]\<rparr>]"
    "kMaxProducers demo_feeds = 3"
    "consumer_objs demo_feeds =
       [\<lparr>consumer_index = 0, c_cur_index = 1, cur_index_read_cnt = 1,
         c_queue_vec = [Some 0, Some 1, None]\<rparr>]"
    by (simp_all add: demo_feeds_eq kMaxProducers_def)
  note th = C4_sticky_counter[OF f(1)]
  have 1: "Pop 0 demo_feeds =
     Returned (Some 9)
       (demo_feeds
          \<lparr>consumer_objs :=
             [\<lparr>consumer_index = 0, c_cur_index = 1, cur_index_read_cnt = 2,
               c_queue_vec = [Some 0, Some 1, None]\<rparr>],
           queue_objs :=
             [\<lparr>q_capacity = 3, q_items = [11]\<rparr>, \<lparr>q_capacity = 3, q_items = [10]\<rparr>]\<rparr>)"
    using th[THEN conjunct1, rule_format, of 1] by (simp add: f Queue_Pop_def)
  have o: "scan_order (c_queue_vec ?co) (c_cur_index ?co) = [0, 1]"
    by (simp add: f scan_order_def wired_at_def upt_conv_Cons)
  have alloc: "\<forall>k q. k < length (c_queue_vec ?co) \<longrightarrow> c_queue_vec ?co ! k = Some q \<longrightarrow>
                 q < length (queue_objs demo_feeds)"
    by (auto simp: f less_Suc_eq numeral_3_eq_3)
  have len: "length (c_queue_vec ?co) = kMaxProducers demo_feeds" by (simp add: f)
  have inc: "c_cur_index ?co + 1 < 2 ^ 64" by (simp add: f)
  have fi: "find (answers Queue_Pop (queue_objs demo_feeds) (c_queue_vec ?co))
              (scan_order (c_queue_vec ?co) (c_cur_index ?co)) = Some 0"
    unfolding o by (simp add: f answers_def Queue_Pop_def)
  from th[THEN conjunct2, THEN conjunct2, THEN conjunct1, THEN mp, OF len, THEN mp, OF alloc,
      THEN mp, OF inc, THEN conjunct1, rule_format, OF fi]
  have 2: "Pop_scan 0 demo_feeds =
     Returned (Some 11)
       (demo_feeds
          \<lparr>consumer_objs :=
             [\<lparr>consumer_index = 0, c_cur_index = 0, cur_index_read_cnt = 1,
               c_queue_vec = [Some 0, Some 1, None]\<rparr>],
           queue_objs :=
             [\<lparr>q_capacity = 3, q_items = []\<rparr>, \<lparr>q_capacity = 3, q_items = [9, 10]\<rparr>]\<rparr>)"
    by (auto simp: f Queue_Pop_def)
  have 3: "sticky_run 2 0 demo_feeds"
    by (simp add: sticky_run_numeral sticky_hit_def demo_feeds_eq model_defs)
  have 4: "\<not> sticky_run 3 0 demo_feeds"
    by (simp add: sticky_run_numeral sticky_hit_def demo_feeds_eq model_defs)
  from th[THEN conjunct2, THEN conjunct2, THEN conjunct2, THEN conjunct2, THEN conjunct2,
      THEN conjunct1, rule_format, OF 3]
  have 5: "c_cur_index (consumer_objs (pops 2 0 demo_feeds) ! 0) = 1"
    "cur_index_read_cnt (consumer_objs (pops 2 0 demo_feeds) ! 0) = 3"
    by (simp_all add: f)
  show ?thesis using f(1-5) demo_feeds_reachable 1 o 2 3 4 5 by simp
qed

subsection \<open>C5\<close>

text \<open>
  C5. In a reachable store with a non-empty free-list, \<open>RegisterProducer\<close> takes the last
  index off the free-list and returns the handle recorded in that slot, which was inactive
  and is now active. Nothing else of the store changes: no channel, no row, no count, no
  table entry.
\<close>

theorem C5_reclaim_reuses_handle:
  assumes "reachable s" "reclaimed_producers s \<noteq> []"
  shows "\<exists>h. producers s ! last (reclaimed_producers s) = Some h \<and>
           \<not> is_registered (producer_objs s ! h) \<and>
           RegisterProducer s =
             Returned (Some h)
               (s\<lparr>reclaimed_producers := butlast (reclaimed_producers s),
                  producer_objs :=
                    (producer_objs s)[h := (producer_objs s ! h)\<lparr>is_registered := True\<rparr>]\<rparr>)"
proof -
  let ?k = "last (reclaimed_producers s)"
  from assms(1) have inv: "matrix_inv s" by (rule reachable_inv)
  from inv have t: "tables_ok s" and r: "reclaim_ok s" by (simp_all add: matrix_inv_def)
  have "?k \<in> set (reclaimed_producers s)" using assms(2) by simp
  then have k: "?k < producer_count s" "\<not> is_registered (producer_objs s ! ?k)"
    using r unfolding reclaim_ok_def by blast+
  have "?k < kMaxProducers s" using k(1) matrix_inv_bounds(1)[OF inv] by simp
  then have tab: "producers s ! ?k = Some ?k" using t k(1) by (simp add: tables_ok_def)
  have "RegisterProducer s =
          Returned (Some ?k)
            (s\<lparr>reclaimed_producers := butlast (reclaimed_producers s),
               producer_objs :=
                 (producer_objs s)[?k := (producer_objs s ! ?k)\<lparr>is_registered := True\<rparr>]\<rparr>)"
    using RegisterProducer_reclaim(1)[OF inv assms(2)] by (simp add: set_registered_def)
  then show ?thesis using tab k(2) by simp
qed

text \<open>C5 at \<open>demo22_unregistered\<close>: slot 1 was freed last and is handed out again.\<close>

theorem C5_reclaim_reuses_handle_witness:
  "reachable demo22_unregistered \<and> reclaimed_producers demo22_unregistered = [0, 1] \<and>
   RegisterProducer demo22_unregistered =
     Returned (Some 1)
       (demo22_unregistered\<lparr>reclaimed_producers := [0],
          producer_objs := (producer_objs demo22_unregistered)
            [1 := (producer_objs demo22_unregistered ! 1)\<lparr>is_registered := True\<rparr>]\<rparr>)"
proof -
  have f: "reclaimed_producers demo22_unregistered = [0, 1]"
    "producers demo22_unregistered ! 1 = Some 1"
    by (simp_all add: demo22_unregistered_eq demo22_eq)
  have "reclaimed_producers demo22_unregistered \<noteq> []" using f by simp
  from C5_reclaim_reuses_handle[OF demo22_unregistered_reachable this]
  show ?thesis using demo22_unregistered_reachable f by simp
qed

subsection \<open>C6\<close>

text \<open>
  C6. In a reachable store \<open>RegisterConsumer\<close> always returns, and it returns null exactly
  when \<open>consumer_count\<close> equals the maximum; with an empty free-list \<open>RegisterProducer\<close>
  always returns, and it returns null exactly when \<open>producer_count\<close> equals the maximum.
  A call that returns null leaves the store as it was.
\<close>

theorem C6_null_exactly_when_full:
  assumes "reachable s"
  shows "(\<exists>r s'. RegisterConsumer s = Returned r s' \<and>
            (r = None \<longleftrightarrow> consumer_count s = kMaxConsumers s) \<and> (r = None \<longrightarrow> s' = s)) \<and>
         (reclaimed_producers s = [] \<longrightarrow>
            (\<exists>r s'. RegisterProducer s = Returned r s' \<and>
               (r = None \<longleftrightarrow> producer_count s = kMaxProducers s) \<and> (r = None \<longrightarrow> s' = s)))"
proof -
  from assms have inv: "matrix_inv s" by (rule reachable_inv)
  note pk = matrix_inv_bounds(1)[OF inv] and ck = matrix_inv_bounds(2)[OF inv]
  have c: "\<exists>r s'. RegisterConsumer s = Returned r s' \<and>
            (r = None \<longleftrightarrow> consumer_count s = kMaxConsumers s) \<and> (r = None \<longrightarrow> s' = s)"
  proof (cases "consumer_count s < kMaxConsumers s")
    case True
    from RegisterConsumer_inv[OF inv True] obtain s'
      where "RegisterConsumer s = Returned (Some (consumer_count s)) s'" by blast
    then show ?thesis using True by simp
  next
    case False
    then have "consumer_count s = kMaxConsumers s" using ck by simp
    then show ?thesis by (simp add: RegisterConsumer_def)
  qed
  have p: "\<exists>r s'. RegisterProducer s = Returned r s' \<and>
               (r = None \<longleftrightarrow> producer_count s = kMaxProducers s) \<and> (r = None \<longrightarrow> s' = s)"
    if e: "reclaimed_producers s = []"
  proof (cases "producer_count s < kMaxProducers s")
    case True
    from RegisterProducer_fresh_inv[OF inv e True] obtain s'
      where "RegisterProducer s = Returned (Some (producer_count s)) s'" by blast
    then show ?thesis using True by simp
  next
    case False
    then have "producer_count s = kMaxProducers s" using pk by simp
    then show ?thesis using e by (simp add: RegisterProducer_def)
  qed
  show ?thesis using c p by blast
qed

text \<open>C6 at the store \<open>demo22\<close>, where both tables are full.\<close>

theorem C6_null_exactly_when_full_witness:
  "reachable demo22 \<and> reclaimed_producers demo22 = [] \<and>
   consumer_count demo22 = kMaxConsumers demo22 \<and> producer_count demo22 = kMaxProducers demo22 \<and>
   RegisterConsumer demo22 = Returned None demo22 \<and>
   RegisterProducer demo22 = Returned None demo22"
proof -
  have f: "reclaimed_producers demo22 = []" "consumer_count demo22 = kMaxConsumers demo22"
    "producer_count demo22 = kMaxProducers demo22"
    by (simp_all add: demo22_eq kMaxConsumers_def kMaxProducers_def)
  from C6_null_exactly_when_full[OF demo22_reachable] f
  have "RegisterConsumer demo22 = Returned None demo22"
    and "RegisterProducer demo22 = Returned None demo22"
    by auto
  then show ?thesis using demo22_reachable f by simp
qed

subsection \<open>C7\<close>

text \<open>
  C7. For a handle that points to a producer object: each of the four push variants
  throws exactly when the handle is inactive, and then the store is the one before the
  call. \<open>UnregisterProducer\<close> throws \<open>invalid_argument\<close> when the handle's index is out of
  range or the slot at that index records another handle, throws \<open>logic_error\<close> when the
  handle matches and is inactive, and throws in no other case; the store is the one before
  the call whenever it throws.
\<close>

theorem C7_usage_errors_leave_store:
  assumes "this < length (producer_objs s)"
  shows "(if is_registered (producer_objs s ! this)
          then \<forall>e s'. Push this v s \<noteq> Threw e s' \<and> Push_move this v s \<noteq> Threw e s' \<and>
                 Push_idx this idx v s \<noteq> Threw e s' \<and> Push_idx_move this idx v s \<noteq> Threw e s'
          else Push this v s = Threw (logic_error ''push unregistered OutQueue'') s \<and>
               Push_move this v s = Threw (logic_error ''push unregistered OutQueue'') s \<and>
               Push_idx this idx v s = Threw (logic_error ''push unregistered OutQueue'') s \<and>
               Push_idx_move this idx v s = Threw (logic_error ''push unregistered OutQueue'') s) \<and>
         (if kMaxProducers s \<le> producer_index (producer_objs s ! this) \<or>
             producers s ! producer_index (producer_objs s ! this) \<noteq> Some this
          then UnregisterProducer this s =
                 Threw (invalid_argument ''invalid OutQueue to unregister'') s
          else if \<not> is_registered (producer_objs s ! this)
          then UnregisterProducer this s = Threw (logic_error ''double unregister'') s
          else \<forall>e s'. UnregisterProducer this s \<noteq> Threw e s')"
proof -
  have push: "Push this v s = Threw (logic_error ''push unregistered OutQueue'') s \<and>
      Push_idx this idx v s = Threw (logic_error ''push unregistered OutQueue'') s"
    if "\<not> is_registered (producer_objs s ! this)"
    using that assms by (simp add: Push_def Push_idx_def)
  have unreg: "UnregisterProducer this s =
      (if kMaxProducers s \<le> producer_index (producer_objs s ! this) \<or>
             producers s ! producer_index (producer_objs s ! this) \<noteq> Some this
       then Threw (invalid_argument ''invalid OutQueue to unregister'') s
       else if \<not> is_registered (producer_objs s ! this)
       then Threw (logic_error ''double unregister'') s
       else Returned ()
              (s\<lparr>producer_objs := (producer_objs s)
                   [this := (producer_objs s ! this)\<lparr>is_registered := False\<rparr>],
                 reclaimed_producers :=
                   reclaimed_producers s @ [producer_index (producer_objs s ! this)]\<rparr>))"
    using assms by (auto simp: UnregisterProducer_def Let_def)
  show ?thesis
    using push Push_never_throws_registered[of s this v]
      Push_idx_never_throws_registered[of s this idx v]
    by (simp add: Push_move_def Push_idx_move_def unreg)
qed

text \<open>
  C7 at three inputs: the inactive handle 0 of \<open>demo22_unregistered\<close> (a push and a second
  unregistration), and the foreign handle 2 of \<open>demo22_foreign\<close>.
\<close>

theorem C7_usage_errors_leave_store_witness:
  "(0::nat) < length (producer_objs demo22_unregistered) \<and>
   \<not> is_registered (producer_objs demo22_unregistered ! 0) \<and>
   Push 0 5 demo22_unregistered =
     Threw (logic_error ''push unregistered OutQueue'') demo22_unregistered \<and>
   Push_idx_move 0 1 5 demo22_unregistered =
     Threw (logic_error ''push unregistered OutQueue'') demo22_unregistered \<and>
   UnregisterProducer 0 demo22_unregistered =
     Threw (logic_error ''double unregister'') demo22_unregistered \<and>
   (2::nat) < length (producer_objs demo22_foreign) \<and>
   producers demo22_foreign ! producer_index (producer_objs demo22_foreign ! 2) = Some 0 \<and>
   UnregisterProducer 2 demo22_foreign =
     Threw (invalid_argument ''invalid OutQueue to unregister'') demo22_foreign"
proof -
  have f: "(0::nat) < length (producer_objs demo22_unregistered)"
    "\<not> is_registered (producer_objs demo22_unregistered ! 0)"
    "producer_index (producer_objs demo22_unregistered ! 0) = 0"
    "producers demo22_unregistered ! 0 = Some 0"
    "kMaxProducers demo22_unregistered = 2"
    by (simp_all add: demo22_unregistered_eq demo22_eq kMaxProducers_def)
  have g: "(2::nat) < length (producer_objs demo22_foreign)"
    "producers demo22_foreign ! producer_index (producer_objs demo22_foreign ! 2) = Some 0"
    by (simp_all add: demo22_foreign_def demo22_eq Producer_new_def)
  note a = C7_usage_errors_leave_store[OF f(1), of 5 1]
  note b = C7_usage_errors_leave_store[OF g(1), of 5 1]
  have "Push 0 5 demo22_unregistered =
     Threw (logic_error ''push unregistered OutQueue'') demo22_unregistered"
    and "Push_idx_move 0 1 5 demo22_unregistered =
     Threw (logic_error ''push unregistered OutQueue'') demo22_unregistered"
    and "UnregisterProducer 0 demo22_unregistered =
     Threw (logic_error ''double unregister'') demo22_unregistered"
    using a f by simp_all
  moreover have "UnregisterProducer 2 demo22_foreign =
     Threw (invalid_argument ''invalid OutQueue to unregister'') demo22_foreign"
    using b g by simp
  ultimately show ?thesis using f g by simp
qed

subsection \<open>C8\<close>

text \<open>
  C8. \<open>timeout\<close> is an \<^verbatim>\<open>int\<close>. For \<open>0 \<le> timeout\<close>, \<open>PopWait\<close> returns within
  \<open>timeout + 1\<close> calls of \<open>Pop\<close>: it returns true, with the value, at the first call of
  \<open>Pop\<close> that does, and it returns false when the first \<open>timeout + 1\<close> calls all returned
  false. For \<open>timeout < 0\<close> it never returns false, and it returns true at the first call
  of \<open>Pop\<close> that does, however late. More fuel never changes a result.
\<close>

theorem C8_pop_wait_polls:
  assumes "- (2 ^ 31) \<le> timeout" "timeout < 2 ^ 31"
  shows "(0 \<le> timeout \<longrightarrow>
            PopWait (nat timeout + 1) env this timeout s \<noteq> None \<and>
            (\<forall>t t'. attempt_store env this (nat timeout) s = Some t \<longrightarrow>
               Pop this t = Returned None t' \<longrightarrow>
               PopWait (nat timeout + 1) env this timeout s = Some (Returned None t'))) \<and>
         (timeout < 0 \<longrightarrow>
            (\<forall>fuel t'. PopWait fuel env this timeout s \<noteq> Some (Returned None t'))) \<and>
         (\<forall>k t v t'. (0 \<le> timeout \<longrightarrow> int k \<le> timeout) \<longrightarrow>
            attempt_store env this k s = Some t \<longrightarrow> Pop this t = Returned (Some v) t' \<longrightarrow>
            PopWait (k + 1) env this timeout s = Some (Returned (Some v) t')) \<and>
         (\<forall>fuel extra r. PopWait fuel env this timeout s = Some r \<longrightarrow>
            PopWait (fuel + extra) env this timeout s = Some r)"
proof -
  have a: "PopWait (nat timeout + 1) env this timeout s \<noteq> None" if "0 \<le> timeout"
    using that assms(2) PopWait_loop_returns[of 0 "nat timeout" timeout env this s]
    by (simp add: PopWait_def)
  have b: "PopWait (nat timeout + 1) env this timeout s = Some (Returned None t')"
    if "0 \<le> timeout" "attempt_store env this (nat timeout) s = Some t"
      "Pop this t = Returned None t'" for t t'
    using that assms(2) PopWait_loop_timeout[of env this "nat timeout" s t t' 0 timeout]
    by (simp add: PopWait_def)
  have c: "PopWait fuel env this timeout s \<noteq> Some (Returned None t')"
    if "timeout < 0" for fuel t'
    using that by (simp add: PopWait_def PopWait_loop_forever)
  have d: "PopWait (k + 1) env this timeout s = Some (Returned (Some v) t')"
    if "0 \<le> timeout \<longrightarrow> int k \<le> timeout" "attempt_store env this k s = Some t"
      "Pop this t = Returned (Some v) t'" for k t v t'
    using that assms(2) PopWait_loop_hit[of env this k s t v t' timeout 0]
    by (simp add: PopWait_def)
  have e: "PopWait (fuel + extra) env this timeout s = Some r"
    if "PopWait fuel env this timeout s = Some r" for fuel extra r
    using that by (simp add: PopWait_def PopWait_loop_mono)
  show ?thesis using a b c d e by blast
qed

text \<open>
  C8 on the empty store \<open>demo11\<close>: with timeout 0 one call of \<open>Pop\<close> and failure; with
  timeout 2 and idle producers failure at the third call; with timeout -1 and a producer
  that pushes 7 during the second sleep, success at the third call.
\<close>

theorem C8_pop_wait_polls_witness:
  "- (2 ^ 31) \<le> (- 1 :: int) \<and> (2 :: int) < 2 ^ 31 \<and>
   PopWait 1 (\<lambda>n s. s) 0 0 demo11 = Some (Returned None demo11_idle) \<and>
   PopWait 2 (\<lambda>n s. s) 0 2 demo11 = None \<and>
   PopWait 3 (\<lambda>n s. s) 0 2 demo11 = Some (Returned None demo11_idle) \<and>
   PopWait 3 (\<lambda>n. if n = 1 then after (Push 0 7) else (\<lambda>s. s)) 0 (- 1) demo11 =
     Some (Returned (Some 7) demo11_served)"
proof -
  let ?idle = "\<lambda>(n::nat) (s::nat state). s"
  let ?busy = "\<lambda>n::nat. if n = 1 then after (Push 0 7) else (\<lambda>s::nat state. s)"
  have a0: "attempt_store ?idle 0 (nat 0) demo11 = Some demo11" by simp
  have a2: "attempt_store ?idle 0 (nat 2) demo11 = Some demo11_idle"
    by (simp add: attempt_store_numeral demo11_calls)
  have b2: "attempt_store ?busy 0 2 demo11 = Some demo11_fed"
    by (simp add: attempt_store_numeral demo11_calls after_def)
  note t0 = C8_pop_wait_polls[where timeout = 0 and env = ?idle and this = 0 and s = demo11]
  note t2 = C8_pop_wait_polls[where timeout = 2 and env = ?idle and this = 0 and s = demo11]
  note tm = C8_pop_wait_polls[where timeout = "- 1" and env = ?busy and this = 0 and s = demo11]
  have 1: "PopWait 1 ?idle 0 0 demo11 = Some (Returned None demo11_idle)"
    using t0 a0 demo11_calls(1) by simp
  have 2: "PopWait 3 ?idle 0 2 demo11 = Some (Returned None demo11_idle)"
    using t2 a2 demo11_calls(2) by simp
  have "PopWait (2 + 1) ?busy 0 (- 1) demo11 = Some (Returned (Some 7) demo11_served)"
    by (rule tm[THEN conjunct2, THEN conjunct2, THEN conjunct1, rule_format,
          OF _ _ _ b2 demo11_calls(4)]) simp_all
  then have 3: "PopWait 3 ?busy 0 (- 1) demo11 = Some (Returned (Some 7) demo11_served)"
    by simp
  have 4: "PopWait 2 ?idle 0 2 demo11 = None"
    by (simp add: PopWait_def numeral_2_eq_2 demo11_calls int_inc_def)
  show ?thesis using 1 2 3 4 by simp
qed

subsection \<open>C9\<close>

text \<open>
  C9. In a reachable store, for the active handle of producer slot \<open>p\<close>: the directed
  push to index \<open>c\<close> returns false when \<open>c\<close> is not below the maximum, when the row entry
  at \<open>c\<close> is empty and when the channel there is full, all without any change of the
  store; otherwise it returns true and the store changes only in that channel, to which
  the value is appended (the cursor stays). That channel is in the row of consumer \<open>c\<close>
  and in the row of no other consumer \<open>c'\<close>, and a pop by \<open>c'\<close> returns what it returns
  without the push and leaves the channel alone.
\<close>

theorem C9_directed_push_reaches_one_consumer:
  assumes "reachable s" "p < producer_count s" "is_registered (producer_objs s ! p)"
  shows "Push_idx p c v s =
           (if c < kMaxConsumers s then
              (case producer_row s p ! c of
                 None \<Rightarrow> Returned False s
               | Some q \<Rightarrow>
                   (case Queue_Push v (queue_objs s ! q) of
                      Some q' \<Rightarrow> Returned True (with_channel q q' s)
                    | None \<Rightarrow> Returned False s))
            else Returned False s) \<and>
         (\<forall>c' q x. c < consumer_count s \<longrightarrow> c' < consumer_count s \<longrightarrow> c' \<noteq> c \<longrightarrow>
            producer_row s p ! c = Some q \<longrightarrow>
              consumer_row s c ! p = Some q \<and> Some q \<notin> set (consumer_row s c') \<and>
              Pop c' (with_channel q x s) = map_store (with_channel q x) (Pop c' s))"
proof -
  from assms(1) have inv: "matrix_inv s" by (rule reachable_inv)
  from inv have t: "tables_ok s" by (simp add: matrix_inv_def)
  have lp: "p < length (producer_objs s)" using t assms(2) by (simp add: tables_ok_def)
  have row: "p_queue_vec (producer_objs s ! p) = producer_row s p"
    using inv_rows(1)[OF inv assms(2)] by (simp add: p_row_def)
  have len: "length (producer_row s p) = kMaxConsumers s"
    by (rule inv_producer_row(1)[OF inv assms(2)])
  have valid: "q < length (queue_objs s)" if "c < kMaxConsumers s" "producer_row s p ! c = Some q" for q
  proof -
    have "c < consumer_count s" using inv_producer_row(2)[OF inv assms(2) that(1)] that(2) by simp
    from inv_channel[OF inv assms(2) this] that(2) have "links s q p c" by auto
    then show ?thesis by (simp add: links_def)
  qed
  have a: "Push_idx p c v s =
           (if c < kMaxConsumers s then
              (case producer_row s p ! c of
                 None \<Rightarrow> Returned False s
               | Some q \<Rightarrow>
                   (case Queue_Push v (queue_objs s ! q) of
                      Some q' \<Rightarrow> Returned True (with_channel q q' s)
                    | None \<Rightarrow> Returned False s))
            else Returned False s)"
    using lp assms(3) len valid
    by (auto simp: Push_idx_def Let_def row with_channel_def split: option.splits)
  have b: "consumer_row s c ! p = Some q \<and> Some q \<notin> set (consumer_row s c') \<and>
              Pop c' (with_channel q x s) = map_store (with_channel q x) (Pop c' s)"
    if "c < consumer_count s" "c' < consumer_count s" "c' \<noteq> c" "producer_row s p ! c = Some q"
    for c' q x
  proof -
    have 1: "consumer_row s c ! p = Some q"
      using inv_channel[OF inv assms(2) that(1)] that(4) by auto
    have 2: "Some q \<notin> set (consumer_row s c')"
      by (rule channel_of_one_consumer[OF inv assms(2) that])
    have "c_queue_vec (consumer_objs s ! c') = consumer_row s c'"
      using inv_rows(2)[OF inv that(2)] by (simp add: c_row_def)
    then have 3: "Pop c' (with_channel q x s) = map_store (with_channel q x) (Pop c' s)"
      using Pop_frame[of q s c' x] 2 by simp
    show ?thesis using 1 2 3 by simp
  qed
  show ?thesis using a b by blast
qed

text \<open>
  C9 at \<open>demo33\<close>: producer 0 pushes 5 to consumer 1; it lands in channel 1, the pop of
  consumer 0 finds nothing, as without the push, and the pop of consumer 1 returns 5.
\<close>

theorem C9_directed_push_reaches_one_consumer_witness:
  "reachable demo33 \<and> (0::nat) < producer_count demo33 \<and>
   is_registered (producer_objs demo33 ! 0) \<and> (1::nat) < consumer_count demo33 \<and>
   Push_idx 0 1 5 demo33 =
     Returned True (with_channel 1 \<lparr>q_capacity = 1, q_items = [5]\<rparr> demo33) \<and>
   Pop 0 (with_channel 1 \<lparr>q_capacity = 1, q_items = [5]\<rparr> demo33) =
     Returned None (with_channel 1 \<lparr>q_capacity = 1, q_items = [5]\<rparr> (set_consumer 0 2 0 demo33)) \<and>
   Pop 1 (with_channel 1 \<lparr>q_capacity = 1, q_items = [5]\<rparr> demo33) =
     Returned (Some 5) (set_consumer 1 0 1 demo33)"
proof -
  have f: "(0::nat) < producer_count demo33" "is_registered (producer_objs demo33 ! 0)"
    "(1::nat) < consumer_count demo33" "(0::nat) < consumer_count demo33"
    "(1::nat) < kMaxConsumers demo33"
    "producer_row demo33 0 ! 1 = Some 1"
    "Queue_Push 5 (queue_objs demo33 ! 1) = Some \<lparr>q_capacity = 1, q_items = [5]\<rparr>"
    by (simp_all add: demo33_eq producer_row_def kMaxConsumers_def Queue_Push_def)
  have p0: "Pop 0 demo33 = Returned None (set_consumer 0 2 0 demo33)"
    by (simp add: demo33_eq model_defs)
  have p1: "Pop 1 (with_channel 1 \<lparr>q_capacity = 1, q_items = [5]\<rparr> demo33) =
     Returned (Some 5) (set_consumer 1 0 1 demo33)"
    by (simp add: demo33_eq model_defs with_channel_def)
  note th = C9_directed_push_reaches_one_consumer[OF demo33_reachable f(1,2), of 1 5]
  have 1: "Push_idx 0 1 5 demo33 =
     Returned True (with_channel 1 \<lparr>q_capacity = 1, q_items = [5]\<rparr> demo33)"
    using th[THEN conjunct1] f by simp
  have "Pop 0 (with_channel 1 \<lparr>q_capacity = 1, q_items = [5]\<rparr> demo33) =
          map_store (with_channel 1 \<lparr>q_capacity = 1, q_items = [5]\<rparr>) (Pop 0 demo33)"
    using th[THEN conjunct2, rule_format, of 0 1] f by simp
  then have 2: "Pop 0 (with_channel 1 \<lparr>q_capacity = 1, q_items = [5]\<rparr> demo33) =
     Returned None (with_channel 1 \<lparr>q_capacity = 1, q_items = [5]\<rparr> (set_consumer 0 2 0 demo33))"
    by (simp add: p0)
  show ?thesis using demo33_reachable f 1 2 p1 by simp
qed

subsection \<open>C10\<close>

text \<open>
  C10. The free-list is a stack. A call of \<open>UnregisterProducer\<close> that returns has appended
  the handle's slot index at the end of the free-list; in a reachable store with a
  non-empty free-list \<open>RegisterProducer\<close> returns the handle of the slot at the end of the
  list and removes that index. So after unregistering the active handles \<open>hs\<close>, in this
  order, the next \<open>length hs\<close> registrations return them in reverse order.
\<close>

theorem C10_free_list_is_lifo:
  assumes "reachable s" "distinct hs"
    "\<forall>h\<in>set hs. h < length (producer_objs s) \<and> is_registered (producer_objs s ! h)"
  shows "(\<forall>h s'. UnregisterProducer h s = Returned () s' \<longrightarrow>
            reclaimed_producers s' =
              reclaimed_producers s @ [producer_index (producer_objs s ! h)]) \<and>
         (reclaimed_producers s \<noteq> [] \<longrightarrow>
            (\<exists>h s'. RegisterProducer s = Returned (Some h) s' \<and>
               producers s ! last (reclaimed_producers s) = Some h \<and>
               reclaimed_producers s' = butlast (reclaimed_producers s))) \<and>
         (\<exists>s1 s2. unregister_all hs s = Returned () s1 \<and>
            reclaimed_producers s1 = reclaimed_producers s @ hs \<and>
            register_n (length hs) s1 = Returned (map Some (rev hs)) s2 \<and>
            reclaimed_producers s2 = reclaimed_producers s)"
proof -
  from assms(1) have inv: "matrix_inv s" by (rule reachable_inv)
  have lp: "length (producer_objs s) = producer_count s"
    using inv by (simp add: matrix_inv_def tables_ok_def)
  have a: "\<forall>h s'. UnregisterProducer h s = Returned () s' \<longrightarrow>
            reclaimed_producers s' =
              reclaimed_producers s @ [producer_index (producer_objs s ! h)]"
    by (auto simp: UnregisterProducer_def Let_def split: if_splits)
  have b: "\<exists>h s'. RegisterProducer s = Returned (Some h) s' \<and>
               producers s ! last (reclaimed_producers s) = Some h \<and>
               reclaimed_producers s' = butlast (reclaimed_producers s)"
    if ne: "reclaimed_producers s \<noteq> []"
  proof -
    let ?k = "last (reclaimed_producers s)"
    have "?k \<in> set (reclaimed_producers s)" using ne by simp
    then have "?k < producer_count s"
      using inv unfolding matrix_inv_def reclaim_ok_def by blast
    then have "producers s ! ?k = Some ?k"
      using inv matrix_inv_bounds(1)[OF inv] by (simp add: matrix_inv_def tables_ok_def)
    then show ?thesis using RegisterProducer_reclaim(1)[OF inv ne] by simp
  qed
  from unregister_all_ok[OF inv assms(2)] assms(3) lp
  obtain s1 where s1: "unregister_all hs s = Returned () s1" "matrix_inv s1"
    "reclaimed_producers s1 = reclaimed_producers s @ hs"
    by auto
  from register_n_ok[OF s1(2,3)]
  obtain s2 where "register_n (length hs) s1 = Returned (map Some (rev hs)) s2"
    "reclaimed_producers s2 = reclaimed_producers s"
    by auto
  then show ?thesis using a b s1 by blast
qed

text \<open>
  C10 at \<open>demo22\<close>: handle 0 is unregistered before handle 1, and the next two
  registrations return handle 1, then handle 0.
\<close>

theorem C10_free_list_is_lifo_witness:
  "reachable demo22 \<and> distinct [0, 1 :: nat] \<and>
   is_registered (producer_objs demo22 ! 0) \<and> is_registered (producer_objs demo22 ! 1) \<and>
   (\<exists>s1 s2. unregister_all [0, 1] demo22 = Returned () s1 \<and>
      reclaimed_producers s1 = [0, 1] \<and>
      register_n 2 s1 = Returned [Some 1, Some 0] s2 \<and> reclaimed_producers s2 = [])"
proof -
  have f: "is_registered (producer_objs demo22 ! 0)" "is_registered (producer_objs demo22 ! 1)"
    "length (producer_objs demo22) = 2" "reclaimed_producers demo22 = []"
    by (simp_all add: demo22_eq)
  have "\<forall>h\<in>set [0, 1]. h < length (producer_objs demo22) \<and>
          is_registered (producer_objs demo22 ! h)"
    using f by simp
  from C10_free_list_is_lifo[OF demo22_reachable _ this]
  have "\<exists>s1 s2. unregister_all [0, 1] demo22 = Returned () s1 \<and>
      reclaimed_producers s1 = reclaimed_producers demo22 @ [0, 1] \<and>
      register_n (length [0, 1 :: nat]) s1 = Returned (map Some (rev [0, 1])) s2 \<and>
      reclaimed_producers s2 = reclaimed_producers demo22"
    by simp
  then show ?thesis using demo22_reachable f by (simp add: numeral_2_eq_2)
qed

end
